theory Spec2Isabelle
  imports Main "HOL-Library.Sublist"
begin

section \<open>Values, handlers, chains\<close>

text \<open>
  JavaScript values that travel through a dispatch: argument arrays, handler results, the
  memorized value of an event. Numbers are the integers and \<open>NaN\<close>, the one value that is
  not identical to itself. Objects other than arrays are not modelled.
\<close>

datatype jsval = JUndefined | JNull | JBool bool | JNum int | JNaN | JStr string | JArr "jsval list"

text \<open>
  The value of a \<open>handled\<close> property, of a chain or of a handler, is \<open>undefined\<close> (the
  property is absent, or was assigned \<open>undefined\<close>: \<open>None\<close> below) or a number. The
  numbers that arise are those that \<open>++\<close> reaches from \<open>0\<close> and from \<open>undefined\<close>: the
  integers up to \<open>2^53\<close>, where a double can no longer tell \<open>n + 1\<close> from \<open>n\<close>, and \<open>NaN\<close>.
\<close>

datatype number = NaN | Num nat

text \<open>
  \<open>++x\<close>, as the value it stores and returns (\<open>undefined\<close> converts to \<open>NaN\<close>, and
  \<open>2^53 + 1\<close> rounds to \<open>2^53\<close>), and \<open>x === y\<close> on such values.
\<close>

definition increment :: "number option \<Rightarrow> number" where
  "increment x =
     (case x of
        None \<Rightarrow> NaN
      | Some NaN \<Rightarrow> NaN
      | Some (Num n) \<Rightarrow> Num (if n < 2 ^ 53 then Suc n else n))"

definition identical :: "number option \<Rightarrow> number option \<Rightarrow> bool" where
  "identical x y = (x = y \<and> x \<noteq> Some NaN)"

text \<open>
  Handler objects live in a heap (a list indexed by address), because the candidate array
  of a running dispatch and the chain of an event share them by reference.
  Contexts and callbacks are compared with \<open>!==\<close> only, so each is an identity (a number);
  a context of \<open>None\<close> is a falsy context value, a callback of \<open>None\<close> an absent one.
\<close>

type_synonym ref = nat
type_synonym ctx = nat
type_synonym cb = nat

record handler =
  h_callback :: cb
  h_context :: "ctx option"
  h_handled :: "number option"
  h_next :: "ref option"

text \<open>
  The per-event object \<open>handlers[event]\<close>: \<open>c_head\<close> and \<open>c_tail\<close> are \<open>None\<close> when the
  property is not in the object, \<open>c_memory\<close> likewise.
\<close>

record chain =
  c_head :: "ref option"
  c_tail :: "ref option"
  c_handled :: "number option"
  c_memory :: "jsval option"

text \<open>
  What invoking a callback does: it returns a value (or a future that resolves to it),
  throws, or returns a future that rejects. Before it settles it may call the emitter it
  is subscribed to (see \<open>action\<close> below).
\<close>

datatype outcome = Returns jsval | Throws jsval | Rejects jsval

text \<open>
  The emitter instance (\<open>me[HANDLERS]\<close> and the handler objects it reaches), the state
  \<open>world\<close> of everything outside the emitter, and \<open>calls\<close>, a log of every callback
  invocation (the handler object, the argument list it was applied to and how the
  invocation settled), which exists to state which handlers a dispatch invoked.
\<close>

record 'w emitter =
  handlers :: "string \<Rightarrow> chain option"
  heap :: "handler list"
  calls :: "(ref \<times> jsval list \<times> outcome) list"
  world :: 'w

datatype failure = NoCallback | UnknownRunner string | TypeError | HandlerFailure jsval

text \<open>
  What a dispatch call gives back: a future that resolves, a future that rejects, an
  exception thrown out of the call itself, a value that is no future (\<open>Plain\<close>: the
  \<open>false\<close> of a guard \<open>(x = v) === v && ...\<close> that fails), or, when the runner looked up
  is a property that the runner table inherits from \<open>Object.prototype\<close>, whatever that
  built-in returns or throws when it is called as a runner (\<open>Foreign\<close>, with its name).
\<close>

datatype result = Resolved jsval | Rejected failure | Raised failure | Plain jsval | Foreign string

text \<open>
  The calls a callback makes on the emitter while it runs: \<open>on\<close>, \<open>off\<close>, \<open>emit\<close> (the
  hub's \<open>publish\<close>), \<open>reemit\<close> and the hub's \<open>republish\<close>, with their arguments.
\<close>

datatype action =
  Subscribe string "ctx option" cb
| Unsubscribe string "ctx option" "cb option"
| Dispatch string "jsval list"
| Redispatch string bool "ctx option" "cb option"
| Republish string "ctx option" "cb option" bool

text \<open>
  What a runner table can hold under a name: one of the three runners of the sources, or
  a built-in function that the table, a plain object, inherits under that name.
\<close>

datatype runner = EmitterSequence | HubSequence | HubPipeline | Inherited string

text \<open>
  The surroundings of an emitter: the runner table of its class (\<open>me[RUNNERS]\<close>, a lookup
  by property name), the behaviour of each callback applied to a receiver and an argument
  list, and the string each context currently reports as its \<open>phase\<close> property
  (\<open>''undefined''\<close> when it has none, as \<open>RegExp.prototype.test\<close> converts it).
  \<open>re_runner\<close> is \<open>exec\<close> of the pattern that the hub reads from the module
  \<open>event/config\<close>, which is not among the sources. \<open>stack\<close> is how deep dispatches made
  by callbacks can nest inside one another before the call stack is used up.
\<close>

record 'w env =
  runners :: "string \<Rightarrow> runner option"
  invoke :: "cb \<Rightarrow> ctx option \<Rightarrow> jsval list \<Rightarrow> 'w \<Rightarrow> action list \<times> outcome \<times> 'w"
  phase :: "'w \<Rightarrow> ctx \<Rightarrow> string"
  re_runner :: "string \<Rightarrow> (string \<times> string) option"
  stack :: nat

definition look :: "handler list \<Rightarrow> ref \<Rightarrow> handler option" where
  "look hp r = (if r < length hp then Some (hp ! r) else None)"

section \<open>The runner suffix of an event name\<close>

text \<open>
  \<open>RE_RUNNER = /^(.+)(?::(\w+))/\<close>. Characters are bytes here, so the line terminators
  that \<open>.\<close> refuses are line feed and carriage return.
\<close>

definition is_word :: "char \<Rightarrow> bool" where
  "is_word c = (c \<in> set ''abcdefghijklmnopqrstuvwxyzABCDEFGHIJKLMNOPQRSTUVWXYZ0123456789_'')"

definition is_line_terminator :: "char \<Rightarrow> bool" where
  "is_line_terminator c = (c = CHR 0x0A \<or> c = CHR 0x0D)"

text \<open>
  The backtracking match, anchored at the start of the string: \<open>pre\<close> is what \<open>(.+)\<close> has
  taken so far. Being greedy, \<open>.+\<close> first tries to take one more character; only when
  no match follows from there does it stop at \<open>pre\<close>, which then needs a colon next and
  at least one word character after it. \<open>\w+\<close> takes the longest run of word characters.
\<close>

fun RE_RUNNER_from :: "string \<Rightarrow> string \<Rightarrow> (string \<times> string) option" where
  "RE_RUNNER_from pre [] = None"
| "RE_RUNNER_from pre (c # cs) =
     (case (if is_line_terminator c then None else RE_RUNNER_from (pre @ [c]) cs) of
        Some m \<Rightarrow> Some m
      | None \<Rightarrow>
          (if pre \<noteq> [] \<and> c = CHR '':'' \<and> takeWhile is_word cs \<noteq> []
           then Some (pre, takeWhile is_word cs) else None))"

definition RE_RUNNER_exec :: "string \<Rightarrow> (string \<times> string) option" where
  "RE_RUNNER_exec event = RE_RUNNER_from [] event"

text \<open>\<open>RE_PHASE = /^(?:initi|fin)alized?$/\<close>, tested against a whole string.\<close>

definition RE_PHASE_test :: "string \<Rightarrow> bool" where
  "RE_PHASE_test s =
     (s \<in> set (concat (map (\<lambda>p. map (\<lambda>d. p @ ''alize'' @ d) ['''', ''d'']) [''initi'', ''fin''])))"

section \<open>Subscribing and unsubscribing\<close>

text \<open>A chain as \<open>on\<close>, \<open>emit\<close> and \<open>reemit\<close> create it: \<open>{}\<close> with \<open>handled\<close> set to \<open>0\<close>.\<close>

definition new_chain :: chain where
  "new_chain = \<lparr>c_head = None, c_tail = None, c_handled = Some (Num 0), c_memory = None\<rparr>"

definition set_next :: "handler list \<Rightarrow> ref \<Rightarrow> ref option \<Rightarrow> handler list" where
  "set_next hp r n = hp[r := (hp ! r)\<lparr>h_next := n\<rparr>]"

text \<open>
  The body of \<open>on\<close> once the callback is known to be there. The new handler object gets
  the next free address.
\<close>

definition link_handler :: "string \<Rightarrow> ctx option \<Rightarrow> cb \<Rightarrow> 'w emitter \<Rightarrow> 'w emitter" where
  "link_handler event context callback me =
     (let handler = length (heap me);
          hp = heap me @ [\<lparr>h_callback = callback, h_context = context,
                           h_handled = None, h_next = None\<rparr>]
      in case handlers me event of
           Some c \<Rightarrow>
             (case c_tail c of
                Some t \<Rightarrow>
                  me\<lparr>heap := set_next hp t (Some handler),
                      handlers := (handlers me)(event \<mapsto> c\<lparr>c_tail := Some handler\<rparr>)\<rparr>
              | None \<Rightarrow>
                  me\<lparr>heap := hp,
                      handlers := (handlers me)
                        (event \<mapsto> c\<lparr>c_head := Some handler, c_tail := Some handler\<rparr>)\<rparr>)
         | None \<Rightarrow>
             me\<lparr>heap := hp,
                 handlers := (handlers me)
                   (event \<mapsto> new_chain\<lparr>c_head := Some handler, c_tail := Some handler\<rparr>)\<rparr>)"

definition on :: "string \<Rightarrow> ctx option \<Rightarrow> cb option \<Rightarrow> 'w emitter \<Rightarrow> failure + 'w emitter" where
  "on event context callback me =
     (case callback of
        None \<Rightarrow> Inl NoCallback
      | Some f \<Rightarrow> Inr (link_handler event context f me))"

text \<open>
  The test of \<open>off\<close> and \<open>reemit\<close>: a truthy \<open>context\<close> that differs from the handler's,
  or a truthy \<open>callback\<close> that differs from the handler's, leaves the handler alone.
\<close>

definition mismatch :: "ctx option \<Rightarrow> cb option \<Rightarrow> handler \<Rightarrow> bool" where
  "mismatch context callback h =
     ((context \<noteq> None \<and> h_context h \<noteq> context) \<or>
      (callback \<noteq> None \<and> Some (h_callback h) \<noteq> callback))"

text \<open>
  The \<open>do ... while ((handler = handler[NEXT]))\<close> loop of \<open>off\<close>, one handler per step,
  relinking the survivors as it goes (\<open>head\<close> and \<open>tail\<close> are assigned together, so a
  \<open>head\<close> without a \<open>tail\<close> is never met). A chain of handlers cannot be longer than the heap
  unless it runs in a circle, so the fuel (the heap's size, see \<open>off\<close>) runs out exactly
  when the loop of the source would never end: the result is then \<open>None\<close>.
\<close>

fun off_loop ::
  "nat \<Rightarrow> ctx option \<Rightarrow> cb option \<Rightarrow> handler list \<Rightarrow> ref option \<Rightarrow> ref option \<Rightarrow> ref \<Rightarrow>
   (handler list \<times> ref option \<times> ref option) option" where
  "off_loop 0 context callback hp head tail handler = None"
| "off_loop (Suc fuel) context callback hp head tail handler =
     (case look hp handler of
        None \<Rightarrow> None
      | Some h \<Rightarrow>
          (let (hp', head', tail') =
                 (if mismatch context callback h
                  then (case head of
                          None \<Rightarrow> (hp, Some handler, Some handler)
                        | Some _ \<Rightarrow>
                            (case tail of
                               Some t \<Rightarrow> (set_next hp t (Some handler), head, Some handler)
                             | None \<Rightarrow> (hp, head, tail)))
                  else (hp, head, tail))
           in case look hp' handler of
                None \<Rightarrow> None
              | Some h' \<Rightarrow>
                  (case h_next h' of
                     None \<Rightarrow> Some (hp', head', tail')
                   | Some n \<Rightarrow> off_loop fuel context callback hp' head' tail' n)))"

definition off :: "string \<Rightarrow> ctx option \<Rightarrow> cb option \<Rightarrow> 'w emitter \<Rightarrow> 'w emitter option" where
  "off event context callback me =
     (case handlers me event of
        None \<Rightarrow> Some me
      | Some c \<Rightarrow>
          (case c_head c of
             None \<Rightarrow> Some me
           | Some first \<Rightarrow>
               (case off_loop (length (heap me)) context callback (heap me) None None first of
                  None \<Rightarrow> None
                | Some (hp, Some head, Some tail) \<Rightarrow>
                    Some (me\<lparr>heap := set_next hp tail None,
                             handlers := (handlers me)
                               (event \<mapsto> c\<lparr>c_head := Some head, c_tail := Some tail\<rparr>)\<rparr>)
                | Some (hp, _, _) \<Rightarrow>
                    Some (me\<lparr>heap := hp,
                             handlers := (handlers me)
                               (event \<mapsto> c\<lparr>c_head := None, c_tail := None\<rparr>)\<rparr>))))"

section \<open>Runners\<close>

text \<open>
  \<open>f.apply(thisArg, argArray)\<close>: \<open>null\<close> and \<open>undefined\<close> stand for no arguments, an
  array gives its elements, and any other primitive is a \<open>TypeError\<close> (\<open>None\<close> here).
\<close>

fun apply_args :: "jsval \<Rightarrow> jsval list option" where
  "apply_args JUndefined = Some []"
| "apply_args JNull = Some []"
| "apply_args (JArr xs) = Some xs"
| "apply_args _ = None"

definition set_handled :: "ref \<Rightarrow> number option \<Rightarrow> 'w emitter \<Rightarrow> 'w emitter" where
  "set_handled candidate handled me =
     me\<lparr>heap := (heap me)[candidate := (heap me ! candidate)\<lparr>h_handled := handled\<rparr>]\<rparr>"

definition set_memory :: "string \<Rightarrow> jsval \<Rightarrow> 'w emitter \<Rightarrow> 'w emitter" where
  "set_memory event args me =
     me\<lparr>handlers := (handlers me)
       (event := map_option (\<lambda>c. c\<lparr>c_memory := Some args\<rparr>) (handlers me event))\<rparr>"

text \<open>
  The calls a callback makes, one after the other. \<open>on\<close> and \<open>off\<close> are the functions
  above; a dispatch is handed to \<open>nest\<close>, which is \<open>emit\<close>, \<open>reemit\<close> and \<open>republish\<close>
  themselves (see \<open>nested\<close> below). What a dispatch gives back to the callback is
  dropped here: how the callback settles, also after a call of its own has thrown, is
  what \<open>invoke\<close> says.
\<close>

fun perform ::
  "(action \<Rightarrow> 'w emitter \<Rightarrow> 'w emitter option) \<Rightarrow> action list \<Rightarrow> 'w emitter \<Rightarrow> 'w emitter option" where
  "perform nest [] me = Some me"
| "perform nest (Subscribe event context callback # acts) me =
     perform nest acts (link_handler event context callback me)"
| "perform nest (Unsubscribe event context callback # acts) me =
     (case off event context callback me of
        None \<Rightarrow> None
      | Some me' \<Rightarrow> perform nest acts me')"
| "perform nest (a # acts) me =
     (case nest a me of
        None \<Rightarrow> None
      | Some me' \<Rightarrow> perform nest acts me')"

text \<open>
  \<open>candidate[CALLBACK].apply(context, args)\<close> with the argument list already unpacked:
  the invocation is logged, the callback acts on the world and on the emitter, and its
  outcome comes back.
\<close>

definition call ::
  "(action \<Rightarrow> 'w emitter \<Rightarrow> 'w emitter option) \<Rightarrow> 'w env \<Rightarrow> ref \<Rightarrow> jsval list \<Rightarrow> 'w emitter \<Rightarrow>
   ('w emitter \<times> outcome) option" where
  "call nest env candidate args me =
     (case look (heap me) candidate of
        None \<Rightarrow> None
      | Some h \<Rightarrow>
          (case invoke env (h_callback h) (h_context h) args (world me) of
             (acts, out, w) \<Rightarrow>
               map_option (\<lambda>me'. (me', out))
                 (perform nest acts (me\<lparr>calls := calls me @ [(candidate, args, out)], world := w\<rparr>))))"

text \<open>
  A failure inside \<open>next\<close>: the first \<open>next\<close> is called by the runner itself, so what is
  thrown there leaves the dispatch call as an exception; every later \<open>next\<close> is a
  continuation of \<open>when\<close>, which turns what is thrown into a rejection.
\<close>

definition failed :: "bool \<Rightarrow> failure \<Rightarrow> result" where
  "failed direct f = (if direct then Raised f else Rejected f)"

text \<open>
  \<open>next\<close> returns \<open>x === x && when(...)\<close> with \<open>x\<close> the value it has just assigned, which
  is \<open>false\<close> when \<open>x\<close> is \<open>NaN\<close>. The runner's own call to \<open>next\<close> then makes the dispatch
  return \<open>false\<close>; in a continuation of \<open>when\<close> the future resolves with it.
\<close>

definition refused :: "bool \<Rightarrow> result" where
  "refused direct = (if direct then Plain (JBool False) else Resolved (JBool False))"

text \<open>
  The emitter's \<open>sequence\<close>: \<open>next\<close> with the candidates still to come, the results so
  far, and whether this \<open>next\<close> is the runner's own call.
\<close>

fun sequence_next ::
  "(action \<Rightarrow> 'w emitter \<Rightarrow> 'w emitter option) \<Rightarrow> 'w env \<Rightarrow> string \<Rightarrow> ref list \<Rightarrow>
   number option \<Rightarrow> jsval \<Rightarrow> jsval list \<Rightarrow> bool \<Rightarrow> 'w emitter \<Rightarrow> ('w emitter \<times> result) option" where
  "sequence_next nest env event [] handled args results direct me =
     (let me1 = set_memory event args me in
      if args \<noteq> JNaN then Some (me1, Resolved (JArr results)) else Some (me1, refused direct))"
| "sequence_next nest env event (candidate # candidates) handled args results direct me =
     (let me1 = set_handled candidate handled me in
      if identical handled handled
      then (case apply_args args of
              None \<Rightarrow> Some (me1, failed direct TypeError)
            | Some as \<Rightarrow>
                (case call nest env candidate as me1 of
                   None \<Rightarrow> None
                 | Some (me2, Returns v) \<Rightarrow>
                     sequence_next nest env event candidates handled args (results @ [v]) False me2
                 | Some (me2, Throws e) \<Rightarrow> Some (me2, failed direct (HandlerFailure e))
                 | Some (me2, Rejects e) \<Rightarrow> Some (me2, Rejected (HandlerFailure e))))
      else Some (me1, refused direct))"

definition sequence ::
  "(action \<Rightarrow> 'w emitter \<Rightarrow> 'w emitter option) \<Rightarrow> 'w env \<Rightarrow> string \<Rightarrow> ref list \<Rightarrow>
   number option \<Rightarrow> jsval \<Rightarrow> 'w emitter \<Rightarrow> ('w emitter \<times> result) option" where
  "sequence nest env event candidates handled args me =
     sequence_next nest env event candidates handled args [] True me"

text \<open>
  The hub's runners skip, inside \<open>next\<close>, each candidate that has a truthy context whose
  phase \<open>RE_PHASE\<close> matches.
\<close>

definition blocked :: "'w env \<Rightarrow> 'w emitter \<Rightarrow> ref \<Rightarrow> bool" where
  "blocked env me candidate =
     (case look (heap me) candidate of
        None \<Rightarrow> False
      | Some h \<Rightarrow>
          (case h_context h of
             None \<Rightarrow> False
           | Some context \<Rightarrow> RE_PHASE_test (phase env (world me) context)))"

fun hub_sequence_next ::
  "(action \<Rightarrow> 'w emitter \<Rightarrow> 'w emitter option) \<Rightarrow> 'w env \<Rightarrow> string \<Rightarrow> ref list \<Rightarrow>
   number option \<Rightarrow> jsval \<Rightarrow> jsval list \<Rightarrow> bool \<Rightarrow> 'w emitter \<Rightarrow> ('w emitter \<times> result) option" where
  "hub_sequence_next nest env event [] handled args results direct me =
     (let me1 = set_memory event args me in
      if args \<noteq> JNaN then Some (me1, Resolved (JArr results)) else Some (me1, refused direct))"
| "hub_sequence_next nest env event (candidate # candidates) handled args results direct me =
     (if blocked env me candidate
      then hub_sequence_next nest env event candidates handled args results direct me
      else
        (let me1 = set_handled candidate handled me in
         if identical handled handled
         then (case apply_args args of
                 None \<Rightarrow> Some (me1, failed direct TypeError)
               | Some as \<Rightarrow>
                   (case call nest env candidate as me1 of
                      None \<Rightarrow> None
                    | Some (me2, Returns v) \<Rightarrow>
                        hub_sequence_next nest env event candidates handled args (results @ [v])
                          False me2
                    | Some (me2, Throws e) \<Rightarrow> Some (me2, failed direct (HandlerFailure e))
                    | Some (me2, Rejects e) \<Rightarrow> Some (me2, Rejected (HandlerFailure e))))
         else Some (me1, refused direct)))"

definition hub_sequence ::
  "(action \<Rightarrow> 'w emitter \<Rightarrow> 'w emitter option) \<Rightarrow> 'w env \<Rightarrow> string \<Rightarrow> ref list \<Rightarrow>
   number option \<Rightarrow> jsval \<Rightarrow> 'w emitter \<Rightarrow> ('w emitter \<times> result) option" where
  "hub_sequence nest env event candidates handled args me =
     hub_sequence_next nest env event candidates handled args [] True me"

text \<open>
  The hub's \<open>pipeline\<close>: \<open>args\<close> is the argument value after \<open>next\<close> has taken over a
  result that is not \<open>undefined\<close>. Its last step has no guard.
\<close>

fun pipeline_next ::
  "(action \<Rightarrow> 'w emitter \<Rightarrow> 'w emitter option) \<Rightarrow> 'w env \<Rightarrow> string \<Rightarrow> ref list \<Rightarrow>
   number option \<Rightarrow> jsval \<Rightarrow> bool \<Rightarrow> 'w emitter \<Rightarrow> ('w emitter \<times> result) option" where
  "pipeline_next nest env event [] handled args direct me =
     Some (set_memory event args me, Resolved args)"
| "pipeline_next nest env event (candidate # candidates) handled args direct me =
     (if blocked env me candidate
      then pipeline_next nest env event candidates handled args direct me
      else
        (let me1 = set_handled candidate handled me in
         if identical handled handled
         then (case apply_args args of
                 None \<Rightarrow> Some (me1, failed direct TypeError)
               | Some as \<Rightarrow>
                   (case call nest env candidate as me1 of
                      None \<Rightarrow> None
                    | Some (me2, Returns result) \<Rightarrow>
                        pipeline_next nest env event candidates handled
                          (if result \<noteq> JUndefined then result else args) False me2
                    | Some (me2, Throws e) \<Rightarrow> Some (me2, failed direct (HandlerFailure e))
                    | Some (me2, Rejects e) \<Rightarrow> Some (me2, Rejected (HandlerFailure e))))
         else Some (me1, refused direct)))"

definition pipeline ::
  "(action \<Rightarrow> 'w emitter \<Rightarrow> 'w emitter option) \<Rightarrow> 'w env \<Rightarrow> string \<Rightarrow> ref list \<Rightarrow>
   number option \<Rightarrow> jsval \<Rightarrow> 'w emitter \<Rightarrow> ('w emitter \<times> result) option" where
  "pipeline nest env event candidates handled args me =
     pipeline_next nest env event candidates handled args True me"

text \<open>
  \<open>runner.call(me, handlers, candidates, handled, args)\<close>. An inherited built-in called
  this way invokes no callback and writes nothing to the chain or to a handler.
\<close>

fun run ::
  "(action \<Rightarrow> 'w emitter \<Rightarrow> 'w emitter option) \<Rightarrow> runner \<Rightarrow> 'w env \<Rightarrow> string \<Rightarrow> ref list \<Rightarrow>
   number option \<Rightarrow> jsval \<Rightarrow> 'w emitter \<Rightarrow> ('w emitter \<times> result) option" where
  "run nest EmitterSequence env event candidates handled args me =
     sequence nest env event candidates handled args me"
| "run nest HubSequence env event candidates handled args me =
     hub_sequence nest env event candidates handled args me"
| "run nest HubPipeline env event candidates handled args me =
     pipeline nest env event candidates handled args me"
| "run nest (Inherited name) env event candidates handled args me = Some (me, Foreign name)"

section \<open>Plain objects\<close>

text \<open>
  The runner tables and the registry \<open>me[HANDLERS]\<close> are plain objects, and the sources
  look names up in them with \<open>table[name]\<close> and \<open>name in table\<close>, which also find what a
  plain object inherits: the properties of \<open>Object.prototype\<close>, listed here (those of
  the standard and the legacy accessors that engines add).
\<close>

definition Object_prototype :: "string list" where
  "Object_prototype =
     [''constructor'', ''toString'', ''toLocaleString'', ''valueOf'', ''hasOwnProperty'',
      ''isPrototypeOf'', ''propertyIsEnumerable'', ''__proto__'', ''__defineGetter__'',
      ''__defineSetter__'', ''__lookupGetter__'', ''__lookupSetter__'']"

definition inherited :: "string \<Rightarrow> bool" where
  "inherited name = (name \<in> set Object_prototype)"

text \<open>\<open>runners[name]\<close> in a table with the given properties of its own.\<close>

definition plain_object :: "(string \<Rightarrow> runner option) \<Rightarrow> string \<Rightarrow> runner option" where
  "plain_object own name =
     (case own name of
        Some r \<Rightarrow> Some r
      | None \<Rightarrow> if inherited name then Some (Inherited name) else None)"

text \<open>The runner tables of the two classes.\<close>

definition emitter_runners :: "string \<Rightarrow> runner option" where
  "emitter_runners =
     plain_object [''sequence'' \<mapsto> EmitterSequence, ''default'' \<mapsto> EmitterSequence]"

definition hub_runners :: "string \<Rightarrow> runner option" where
  "hub_runners =
     plain_object ([''sequence'' \<mapsto> EmitterSequence, ''default'' \<mapsto> EmitterSequence] ++
       [''pipeline'' \<mapsto> HubPipeline, ''sequence'' \<mapsto> HubSequence, ''default'' \<mapsto> HubPipeline])"

text \<open>
  What \<open>handlers[event]\<close> finds in a fresh registry under an inherited name: a built-in
  object (a function, \<open>Object.prototype\<close> itself for \<open>__proto__\<close>), which has none of the
  four properties of a chain. The sources then use that object as the chain of the event,
  and the properties they write stay on it. It is one object for every emitter of the
  program; the model follows a single emitter, and starts where no emitter has written
  to a built-in yet. A property written to the chain of \<open>__proto__\<close> is written to
  \<open>Object.prototype\<close> and so inherited by every object that lacks it; the model keeps
  it on that chain alone.
\<close>

definition builtin :: chain where
  "builtin = \<lparr>c_head = None, c_tail = None, c_handled = None, c_memory = None\<rparr>"

text \<open>A fresh emitter: \<open>this[HANDLERS] = {}\<close>.\<close>

definition EventEmitter :: "'w \<Rightarrow> 'w emitter" where
  "EventEmitter w =
     \<lparr>handlers = (\<lambda>event. if inherited event then Some builtin else None),
      heap = [], calls = [], world = w\<rparr>"

section \<open>Dispatch, replay, peek\<close>

text \<open>The loop of \<open>emit\<close> that pushes every handler of the chain on \<open>candidates\<close>.\<close>

fun emit_loop :: "nat \<Rightarrow> handler list \<Rightarrow> ref \<Rightarrow> ref list option" where
  "emit_loop 0 hp handler = None"
| "emit_loop (Suc fuel) hp handler =
     (case look hp handler of
        None \<Rightarrow> None
      | Some h \<Rightarrow>
          (case h_next h of
             None \<Rightarrow> Some [handler]
           | Some n \<Rightarrow> map_option ((#) handler) (emit_loop fuel hp n)))"

text \<open>
  The event and the runner a dispatch works with: the default runner unless the pattern
  matches, and then the named one, whose absence is an error. The default entry itself can
  only be missing from a table that is not one of the two classes'; calling it is then a
  \<open>TypeError\<close>, raised where the runner would be called.
\<close>

definition select_runner ::
  "(string \<Rightarrow> (string \<times> string) option) \<Rightarrow> 'w env \<Rightarrow> string \<Rightarrow> failure + (string \<times> runner option)" where
  "select_runner re env event =
     (case re event of
        None \<Rightarrow> Inr (event, runners env ''default'')
      | Some (name, rn) \<Rightarrow>
          (case runners env rn of
             None \<Rightarrow> Inl (UnknownRunner rn)
           | Some r \<Rightarrow> Inr (name, Some r)))"

text \<open>
  The body of \<open>emit\<close>. The chain of an event that is not in the registry is created with
  the counter \<open>0\<close>; a chain that is found, a built-in object among them, is taken as it
  is. \<open>++handlers[HANDLED]\<close> is evaluated with the arguments of the runner call.
\<close>

definition emit_at ::
  "(action \<Rightarrow> 'w emitter \<Rightarrow> 'w emitter option) \<Rightarrow> 'w env \<Rightarrow> string \<Rightarrow> jsval list \<Rightarrow> 'w emitter \<Rightarrow>
   ('w emitter \<times> result) option" where
  "emit_at nest env event args me =
     (case select_runner RE_RUNNER_exec env event of
        Inl f \<Rightarrow> Some (me, Raised f)
      | Inr (event, runner) \<Rightarrow>
          (case (case handlers me event of
                   Some c \<Rightarrow>
                     (case c_head c of
                        None \<Rightarrow> Some (me, c, [])
                      | Some first \<Rightarrow>
                          map_option (\<lambda>candidates. (me, c, candidates))
                            (emit_loop (length (heap me)) (heap me) first))
                 | None \<Rightarrow>
                     Some (me\<lparr>handlers := (handlers me)(event \<mapsto> new_chain)\<rparr>, new_chain, [])) of
             None \<Rightarrow> None
           | Some (me1, c, candidates) \<Rightarrow>
               (case runner of
                  None \<Rightarrow> Some (me1, Raised TypeError)
                | Some r \<Rightarrow>
                    run nest r env event candidates (Some (increment (c_handled c))) (JArr args)
                      (me1\<lparr>handlers := (handlers me1)
                         (event \<mapsto> c\<lparr>c_handled := Some (increment (c_handled c))\<rparr>)\<rparr>))))"

text \<open>The loop of \<open>reemit\<close> and \<open>republish\<close>, which pushes only the handlers it replays.\<close>

fun reemit_loop ::
  "nat \<Rightarrow> handler list \<Rightarrow> number option \<Rightarrow> bool \<Rightarrow> ctx option \<Rightarrow> cb option \<Rightarrow> ref \<Rightarrow>
   ref list option" where
  "reemit_loop 0 hp handled senile context callback handler = None"
| "reemit_loop (Suc fuel) hp handled senile context callback handler =
     (case look hp handler of
        None \<Rightarrow> None
      | Some h \<Rightarrow>
          (let add = (\<not> mismatch context callback h \<and>
                      \<not> (identical (h_handled h) handled \<and> \<not> senile))
           in case h_next h of
                None \<Rightarrow> Some (if add then [handler] else [])
              | Some n \<Rightarrow>
                  map_option (\<lambda>candidates. if add then handler # candidates else candidates)
                    (reemit_loop fuel hp handled senile context callback n)))"

text \<open>
  The common body of \<open>reemit\<close> (emitter) and \<open>republish\<close> (hub), which differ in the
  order of their parameters and in where the pattern comes from.
\<close>

definition replay ::
  "(action \<Rightarrow> 'w emitter \<Rightarrow> 'w emitter option) \<Rightarrow> (string \<Rightarrow> (string \<times> string) option) \<Rightarrow> 'w env \<Rightarrow>
   string \<Rightarrow> bool \<Rightarrow> ctx option \<Rightarrow> cb option \<Rightarrow> 'w emitter \<Rightarrow> ('w emitter \<times> result) option" where
  "replay nest re env event senile context callback me =
     (case select_runner re env event of
        Inl f \<Rightarrow> Some (me, Raised f)
      | Inr (event, runner) \<Rightarrow>
          (case (case handlers me event of
                   Some c \<Rightarrow>
                     (case c_head c of
                        None \<Rightarrow> Some (me, c, [])
                      | Some first \<Rightarrow>
                          map_option (\<lambda>candidates. (me, c, candidates))
                            (reemit_loop (length (heap me)) (heap me) (c_handled c) senile
                               context callback first))
                 | None \<Rightarrow>
                     Some (me\<lparr>handlers := (handlers me)(event \<mapsto> new_chain)\<rparr>, new_chain, [])) of
             None \<Rightarrow> None
           | Some (me1, c, candidates) \<Rightarrow>
               (case runner of
                  None \<Rightarrow> Some (me1, Raised TypeError)
                | Some r \<Rightarrow>
                    run nest r env event candidates (c_handled c)
                      (case c_memory c of None \<Rightarrow> JUndefined | Some m \<Rightarrow> m) me1)))"

text \<open>
  Modelled from the spec: the future primitive \<open>when\<close> is not among the sources, and with
  it when the continuations of a dispatch run. The description of the system has a
  dispatch made by a callback create and complete its own snapshot before control returns
  to the dispatch that invoked the callback, and so it is here: \<open>nested n\<close> runs the
  dispatch that an action asks for to its end, inside the callback. \<open>n\<close> is the depth to
  which such dispatches may still nest; at depth \<open>0\<close> the call stack is used up and the
  call does not return.
\<close>

primrec nested :: "nat \<Rightarrow> 'w env \<Rightarrow> action \<Rightarrow> 'w emitter \<Rightarrow> 'w emitter option" where
  "nested 0 env a me = None"
| "nested (Suc n) env a me =
     (case a of
        Dispatch event args \<Rightarrow> map_option fst (emit_at (nested n env) env event args me)
      | Redispatch event senile context callback \<Rightarrow>
          map_option fst (replay (nested n env) RE_RUNNER_exec env event senile context callback me)
      | Republish event context callback senile \<Rightarrow>
          map_option fst (replay (nested n env) (re_runner env) env event senile context callback me)
      | _ \<Rightarrow> Some me)"

definition emit :: "'w env \<Rightarrow> string \<Rightarrow> jsval list \<Rightarrow> 'w emitter \<Rightarrow> ('w emitter \<times> result) option" where
  "emit env event args me = emit_at (nested (stack env) env) env event args me"

definition reemit ::
  "'w env \<Rightarrow> string \<Rightarrow> bool \<Rightarrow> ctx option \<Rightarrow> cb option \<Rightarrow> 'w emitter \<Rightarrow>
   ('w emitter \<times> result) option" where
  "reemit env event senile context callback me =
     replay (nested (stack env) env) RE_RUNNER_exec env event senile context callback me"

definition republish ::
  "'w env \<Rightarrow> string \<Rightarrow> ctx option \<Rightarrow> cb option \<Rightarrow> bool \<Rightarrow> 'w emitter \<Rightarrow>
   ('w emitter \<times> result) option" where
  "republish env event context callback senile me =
     replay (nested (stack env) env) (re_runner env) env event senile context callback me"

definition peek :: "string \<Rightarrow> 'w emitter \<Rightarrow> jsval" where
  "peek event me =
     (case handlers me event of
        None \<Rightarrow> JUndefined
      | Some c \<Rightarrow> (case c_memory c of None \<Rightarrow> JUndefined | Some m \<Rightarrow> m))"

section \<open>Notions the properties are stated with\<close>

subsection \<open>The chain of an event as a list\<close>

text \<open>
  \<open>linked hp rs\<close>: the handler objects \<open>rs\<close> exist and each points to the one after it
  with its \<open>next\<close> property. \<open>path hp first rs\<close>: following \<open>next\<close> from \<open>first\<close> visits
  exactly \<open>rs\<close> and then ends, the last object having no \<open>next\<close>.
\<close>

fun linked :: "handler list \<Rightarrow> ref list \<Rightarrow> bool" where
  "linked hp [] = True"
| "linked hp [r] = (r < length hp)"
| "linked hp (r # s # rs) = (r < length hp \<and> h_next (hp ! r) = Some s \<and> linked hp (s # rs))"

fun path :: "handler list \<Rightarrow> ref \<Rightarrow> ref list \<Rightarrow> bool" where
  "path hp first [] = False"
| "path hp first [r] = (r = first \<and> r < length hp \<and> h_next (hp ! r) = None)"
| "path hp first (r # s # rs) =
     (r = first \<and> r < length hp \<and> h_next (hp ! r) = Some s \<and> path hp s (s # rs))"

text \<open>
  The first and the last element of a list as the \<open>head\<close> and \<open>tail\<close> properties hold
  them: absent for the empty list.
\<close>

definition first_of :: "ref list \<Rightarrow> ref option" where
  "first_of rs = (if rs = [] then None else Some (hd rs))"

definition last_of :: "ref list \<Rightarrow> ref option" where
  "last_of rs = (if rs = [] then None else Some (last rs))"

text \<open>
  \<open>chain_ok hp c rs\<close>: the chain object \<open>c\<close> (or its absence) stands for the list \<open>rs\<close> of
  handler objects: \<open>head\<close> starts a path through \<open>rs\<close> and \<open>tail\<close> is its last object, or
  neither property is there and \<open>rs\<close> is empty.
\<close>

fun chain_ok :: "handler list \<Rightarrow> chain option \<Rightarrow> ref list \<Rightarrow> bool" where
  "chain_ok hp None rs = (rs = [])"
| "chain_ok hp (Some c) rs =
     (case c_head c of
        None \<Rightarrow> c_tail c = None \<and> rs = []
      | Some first \<Rightarrow> path hp first rs \<and> c_tail c = Some (last rs))"

text \<open>
  The handlers subscribed to an event, head to tail: what the loop of \<open>emit\<close> collects.
  It is empty for an event without a chain, for a chain without a head, and where the loop
  would not end.
\<close>

definition members :: "'w emitter \<Rightarrow> string \<Rightarrow> ref list" where
  "members me event =
     (case handlers me event of
        None \<Rightarrow> []
      | Some c \<Rightarrow>
          (case c_head c of
             None \<Rightarrow> []
           | Some first \<Rightarrow>
               (case emit_loop (length (heap me)) (heap me) first of
                  None \<Rightarrow> []
                | Some rs \<Rightarrow> rs)))"

text \<open>
  The invariant of the emitter's registry: each chain stands for the list of its members,
  and no handler object is a member of two chains. A fresh emitter has it, and every call
  of the interface keeps it when the callbacks make no dispatch of their own
  (\<open>wf_EventEmitter\<close>, \<open>serve_all_spec\<close> below).
\<close>

definition well_linked :: "'w emitter \<Rightarrow> bool" where
  "well_linked me =
     ((\<forall>event. chain_ok (heap me) (handlers me event) (members me event)) \<and>
      (\<forall>e e'. e \<noteq> e' \<longrightarrow> set (members me e) \<inter> set (members me e') = {}))"

text \<open>
  The chain's counter and its memorized value, read for every event name: an event
  without a chain counts as \<open>0\<close>, the value its chain is created with, and has no memory.
\<close>

definition epoch :: "'w emitter \<Rightarrow> string \<Rightarrow> number option" where
  "epoch me event = (case handlers me event of None \<Rightarrow> Some (Num 0) | Some c \<Rightarrow> c_handled c)"

definition memory :: "'w emitter \<Rightarrow> string \<Rightarrow> jsval option" where
  "memory me event = (case handlers me event of None \<Rightarrow> None | Some c \<Rightarrow> c_memory c)"

subsection \<open>Unsubscribing\<close>

text \<open>
  One pass through the body of the loop of \<open>off\<close>, and the members of an event that
  \<open>off\<close> leaves in the chain.
\<close>

definition off_body ::
  "ctx option \<Rightarrow> cb option \<Rightarrow> handler list \<Rightarrow> ref option \<Rightarrow> ref option \<Rightarrow> ref \<Rightarrow>
   handler list \<times> ref option \<times> ref option" where
  "off_body context callback hp head tail handler =
     (if mismatch context callback (hp ! handler)
      then (case head of
              None \<Rightarrow> (hp, Some handler, Some handler)
            | Some _ \<Rightarrow>
                (case tail of
                   Some t \<Rightarrow> (set_next hp t (Some handler), head, Some handler)
                 | None \<Rightarrow> (hp, head, tail)))
      else (hp, head, tail))"

definition survivors :: "ctx option \<Rightarrow> cb option \<Rightarrow> 'w emitter \<Rightarrow> string \<Rightarrow> ref list" where
  "survivors cx f me event = filter (\<lambda>r. mismatch cx f (heap me ! r)) (members me event)"

subsection \<open>The runner pattern\<close>

text \<open>
  \<open>splits pre s\<close>: with \<open>.+\<close> having taken \<open>pre\<close>, the pattern can still match in \<open>s\<close>,
  that is, \<open>s\<close> has a colon that \<open>.+\<close> can reach (no line terminator before it), that has
  some text before it and a word character right after it.
\<close>

definition splits :: "string \<Rightarrow> string \<Rightarrow> bool" where
  "splits pre s =
     (\<exists>a b. s = a @ CHR '':'' # b \<and> pre @ a \<noteq> [] \<and> (\<forall>c \<in> set a. \<not> is_line_terminator c) \<and>
            takeWhile is_word b \<noteq> [])"

subsection \<open>What a step of a dispatch keeps\<close>

text \<open>
  \<open>grows me me'\<close>: handler objects are never removed from the heap and keep their callback
  and context, chains are never removed, and no counter has changed: this is what a run
  of a runner keeps when no callback makes a dispatch of its own. \<open>untouched me me'\<close>
  adds that stamps, memories, the invocation log and the world are as before: this is
  what subscribing and unsubscribing keep.
\<close>

definition grows :: "'w emitter \<Rightarrow> 'w emitter \<Rightarrow> bool" where
  "grows me me' =
     (length (heap me) \<le> length (heap me') \<and>
      (\<forall>x < length (heap me).
         h_callback (heap me' ! x) = h_callback (heap me ! x) \<and>
         h_context (heap me' ! x) = h_context (heap me ! x)) \<and>
      (\<forall>e. epoch me' e = epoch me e) \<and>
      (\<forall>e. handlers me e \<noteq> None \<longrightarrow> handlers me' e \<noteq> None))"

definition untouched :: "'w emitter \<Rightarrow> 'w emitter \<Rightarrow> bool" where
  "untouched me me' =
     (grows me me' \<and>
      (\<forall>x < length (heap me). h_handled (heap me' ! x) = h_handled (heap me ! x)) \<and>
      (\<forall>e. memory me' e = memory me e) \<and> calls me' = calls me \<and> world me' = world me)"

text \<open>
  The two things a dispatch does to the chain before it calls the runner: \<open>ensure\<close>
  creates the chain of an event that has none, \<open>bump\<close> increments its counter. The test
  of \<open>reemit\<close> for pushing a handler on the candidates is \<open>replays\<close>.
\<close>

definition ensure :: "string \<Rightarrow> 'w emitter \<Rightarrow> 'w emitter" where
  "ensure event me =
     (case handlers me event of
        None \<Rightarrow> me\<lparr>handlers := (handlers me)(event \<mapsto> new_chain)\<rparr>
      | Some c \<Rightarrow> me)"

definition bump :: "string \<Rightarrow> 'w emitter \<Rightarrow> 'w emitter" where
  "bump event me =
     me\<lparr>handlers := (handlers me)
       (event := map_option (\<lambda>c. c\<lparr>c_handled := Some (increment (c_handled c))\<rparr>)
          (handlers me event))\<rparr>"

definition replays :: "number option \<Rightarrow> bool \<Rightarrow> ctx option \<Rightarrow> cb option \<Rightarrow> handler \<Rightarrow> bool" where
  "replays handled senile cx f h =
     (\<not> mismatch cx f h \<and> \<not> (identical (h_handled h) handled \<and> \<not> senile))"

subsection \<open>The runners as one loop, and its log\<close>

text \<open>
  The three runners are one loop: \<open>aware\<close> switches the phase test on, \<open>piped\<close> the
  threading of results into the arguments (\<open>sequence_next_gen\<close>, \<open>hub_sequence_next_gen\<close>
  and \<open>pipeline_next_gen\<close> below prove each runner equal to its instance).
\<close>

fun gen_next ::
  "bool \<Rightarrow> bool \<Rightarrow> (action \<Rightarrow> 'w emitter \<Rightarrow> 'w emitter option) \<Rightarrow> 'w env \<Rightarrow> string \<Rightarrow>
   ref list \<Rightarrow> number option \<Rightarrow> jsval \<Rightarrow> jsval list \<Rightarrow> bool \<Rightarrow> 'w emitter \<Rightarrow>
   ('w emitter \<times> result) option" where
  "gen_next aware piped nest env event [] handled args results direct me =
     (if piped then Some (set_memory event args me, Resolved args)
      else if args \<noteq> JNaN then Some (set_memory event args me, Resolved (JArr results))
      else Some (set_memory event args me, refused direct))"
| "gen_next aware piped nest env event (candidate # candidates) handled args results direct me =
     (if aware \<and> blocked env me candidate
      then gen_next aware piped nest env event candidates handled args results direct me
      else if \<not> identical handled handled
      then Some (set_handled candidate handled me, refused direct)
      else
        (case apply_args args of
           None \<Rightarrow> Some (set_handled candidate handled me, failed direct TypeError)
         | Some as \<Rightarrow>
             (case call nest env candidate as (set_handled candidate handled me) of
                None \<Rightarrow> None
              | Some (me2, Returns v) \<Rightarrow>
                  gen_next aware piped nest env event candidates handled
                    (if piped \<and> v \<noteq> JUndefined then v else args) (results @ [v]) False me2
              | Some (me2, Throws e) \<Rightarrow> Some (me2, failed direct (HandlerFailure e))
              | Some (me2, Rejects e) \<Rightarrow> Some (me2, Rejected (HandlerFailure e)))))"

definition is_aware :: "runner \<Rightarrow> bool" where
  "is_aware r = (r = HubSequence \<or> r = HubPipeline)"

definition is_piped :: "runner \<Rightarrow> bool" where
  "is_piped r = (r = HubPipeline)"

text \<open>
  The invocations logged between two states of the emitter, and the values that the
  invocations of a log returned, in order.
\<close>

definition invoked :: "'w emitter \<Rightarrow> 'w emitter \<Rightarrow> (ref \<times> jsval list \<times> outcome) list" where
  "invoked me me' = drop (length (calls me)) (calls me')"

fun returned :: "(ref \<times> jsval list \<times> outcome) list \<Rightarrow> jsval list" where
  "returned [] = []"
| "returned ((r, a, Returns v) # entries) = v # returned entries"
| "returned ((r, a, Throws e) # entries) = returned entries"
| "returned ((r, a, Rejects e) # entries) = returned entries"

text \<open>
  How the log of a run and its result fit together: every invocation but the last
  returned; a last one that failed gives the result, an exception only when it threw in
  the runner's own call to \<open>next\<close>; and a run whose invocations all returned resolved,
  unless its arguments could not be applied, a guard of \<open>next\<close> failed, or the runner
  was an inherited built-in.
\<close>

fun settled :: "bool \<Rightarrow> (ref \<times> jsval list \<times> outcome) list \<Rightarrow> result \<Rightarrow> bool" where
  "settled direct [] res =
     ((\<exists>v. res = Resolved v) \<or> res = failed direct TypeError \<or> res = refused direct \<or>
      (direct \<and> (\<exists>name. res = Foreign name)))"
| "settled direct ((r, a, Returns v) # entries) res = settled False entries res"
| "settled direct ((r, a, Throws e) # entries) res =
     (entries = [] \<and> res = failed direct (HandlerFailure e))"
| "settled direct ((r, a, Rejects e) # entries) res =
     (entries = [] \<and> res = Rejected (HandlerFailure e))"

text \<open>
  What a run of the loop from \<open>me\<close> to \<open>me'\<close> with result \<open>res\<close> and log \<open>new\<close> keeps
  and establishes.
\<close>

definition run_ok ::
  "bool \<Rightarrow> bool \<Rightarrow> string \<Rightarrow> ref list \<Rightarrow> jsval \<Rightarrow> jsval list \<Rightarrow> bool \<Rightarrow>
   'w emitter \<Rightarrow> 'w emitter \<Rightarrow> result \<Rightarrow> (ref \<times> jsval list \<times> outcome) list \<Rightarrow> bool" where
  "run_ok aware piped event cs args results direct me me' res new =
     (well_linked me' \<and> grows me me' \<and> calls me' = calls me @ new \<and>
      settled direct new res \<and> subseq (map fst new) cs \<and>
      (\<not> aware \<longrightarrow> map fst new = take (length new) cs) \<and>
      (\<not> aware \<longrightarrow> (\<exists>v. res = Resolved v) \<longrightarrow> map fst new = cs) \<and>
      (\<not> piped \<longrightarrow> (\<forall>entry \<in> set new. apply_args args = Some (fst (snd entry)))) \<and>
      (\<not> piped \<longrightarrow> (\<forall>v. res = Resolved v \<longrightarrow> v = JArr (results @ returned new))) \<and>
      (\<not> piped \<longrightarrow> res = Raised TypeError \<or> res = Rejected TypeError \<longrightarrow>
         apply_args args = None) \<and>
      ((\<exists>f. res = Raised f \<or> res = Rejected f) \<longrightarrow> memory me' = memory me) \<and>
      (\<forall>v. res = Resolved v \<longrightarrow>
         (\<forall>e. e \<noteq> event \<longrightarrow> memory me' e = memory me e) \<and>
         (handlers me event \<noteq> None \<longrightarrow>
            memory me' event = Some (if piped then v else args))) \<and>
      (\<forall>x < length (heap me). x \<notin> set cs \<longrightarrow>
         h_handled (heap me' ! x) = h_handled (heap me ! x)))"

text \<open>
  The environments in which no callback dispatches: every call a callback makes on the
  emitter is \<open>on\<close> or \<open>off\<close>.
\<close>

fun dispatches :: "action \<Rightarrow> bool" where
  "dispatches (Subscribe event context callback) = False"
| "dispatches (Unsubscribe event context callback) = False"
| "dispatches a = True"

definition no_dispatch :: "'w env \<Rightarrow> bool" where
  "no_dispatch env =
     (\<forall>f this args w. \<forall>a \<in> set (fst (invoke env f this args w)). \<not> dispatches a)"

text \<open>
  \<open>no_lower me me'\<close>: every counter that is a number in \<open>me\<close> is a number in \<open>me'\<close>,
  and not a lower one.
\<close>

definition no_lower :: "'w emitter \<Rightarrow> 'w emitter \<Rightarrow> bool" where
  "no_lower me me' =
     (\<forall>e n. epoch me e = Some (Num n) \<longrightarrow> (\<exists>n'. n \<le> n' \<and> epoch me' e = Some (Num n')))"

subsection \<open>Sequences of calls\<close>

text \<open>
  A call of the emitter's interface, and the emitter a sequence of such calls leaves
  (\<open>None\<close> when a call does not return). A call that throws leaves the emitter as the
  model of that call says: \<open>on\<close> without a callback changes nothing.
\<close>

datatype request =
  On string "ctx option" "cb option"
| Off string "ctx option" "cb option"
| Emit string "jsval list"
| Reemit string bool "ctx option" "cb option"
| Peek string

fun serve :: "'w env \<Rightarrow> request \<Rightarrow> 'w emitter \<Rightarrow> 'w emitter option" where
  "serve env (On event cx f) me = (case on event cx f me of Inl e \<Rightarrow> Some me | Inr me' \<Rightarrow> Some me')"
| "serve env (Off event cx f) me = off event cx f me"
| "serve env (Emit event args) me = map_option fst (emit env event args me)"
| "serve env (Reemit event senile cx f) me = map_option fst (reemit env event senile cx f me)"
| "serve env (Peek event) me = Some me"

fun serve_all :: "'w env \<Rightarrow> request list \<Rightarrow> 'w emitter \<Rightarrow> 'w emitter option" where
  "serve_all env [] me = Some me"
| "serve_all env (q # qs) me =
     (case serve env q me of None \<Rightarrow> None | Some me' \<Rightarrow> serve_all env qs me')"

subsection \<open>Examples\<close>

text \<open>
  Environments in which each callback always does the same: in \<open>scripted\<close>, \<open>script\<close>
  gives its actions and its outcome and \<open>ph\<close> the phase of each context; in \<open>quiet\<close> every
  callback returns \<open>undefined\<close> and does nothing else, and every context reports the phase
  \<open>started\<close>. The hub's pattern is taken to be the emitter's, and a dispatch made by a
  callback can run, but not one nested in that.
\<close>

definition scripted ::
  "(string \<Rightarrow> runner option) \<Rightarrow> (cb \<Rightarrow> action list \<times> outcome) \<Rightarrow> (ctx \<Rightarrow> string) \<Rightarrow> unit env" where
  "scripted rs script ph =
     \<lparr>runners = rs, invoke = (\<lambda>f this args w. (fst (script f), snd (script f), w)),
      phase = (\<lambda>w. ph), re_runner = RE_RUNNER_exec, stack = Suc 0\<rparr>"

definition quiet :: "(string \<Rightarrow> runner option) \<Rightarrow> unit env" where
  "quiet rs = \<lparr>runners = rs, invoke = (\<lambda>f this args w. ([], Returns JUndefined, w)),
               phase = (\<lambda>w c. ''started''), re_runner = RE_RUNNER_exec, stack = Suc 0\<rparr>"

text \<open>
  Emitters with three and with two handlers subscribed to one event, callback and
  context \<open>0\<close> first.
\<close>

definition abc :: "unit emitter" where
  "abc = link_handler ''evt'' (Some 2) 2 (link_handler ''evt'' (Some 1) 1
           (link_handler ''evt'' (Some 0) 0 (EventEmitter ())))"

definition ab :: "unit emitter" where
  "ab = link_handler ''evt'' (Some 1) 1 (link_handler ''evt'' (Some 0) 0 (EventEmitter ()))"

section \<open>Linked handlers\<close>

lemma linked_valid: "linked hp rs \<Longrightarrow> r \<in> set rs \<Longrightarrow> r < length hp"
  by (induction hp rs rule: linked.induct) auto

lemma linked_cong:
  "length hp' = length hp \<Longrightarrow> (\<And>r. r \<in> set (butlast rs) \<Longrightarrow> h_next (hp' ! r) = h_next (hp ! r))
   \<Longrightarrow> linked hp' rs = linked hp rs"
  by (induction hp rs rule: linked.induct) auto

lemma linked_snoc:
  "linked hp (rs @ [r]) = (r < length hp \<and> linked hp rs \<and> (rs \<noteq> [] \<longrightarrow> h_next (hp ! last rs) = Some r))"
  by (induction hp rs rule: linked.induct) auto

lemma path_linked:
  "path hp first rs = (rs \<noteq> [] \<and> hd rs = first \<and> linked hp rs \<and> h_next (hp ! last rs) = None)"
  by (induction hp first rs rule: path.induct) auto

lemma path_hd: "path hp first rs \<Longrightarrow> hd rs = first"
  by (simp add: path_linked)

lemma path_unique: "path hp first rs \<Longrightarrow> path hp first rs' \<Longrightarrow> rs = rs'"
proof (induction hp first rs arbitrary: rs' rule: path.induct)
  case (1 hp first)
  then show ?case by simp
next
  case (2 hp first r)
  then show ?case by (cases rs' rule: remdups_adj.cases) auto
next
  case (3 hp first r s rs)
  then show ?case by (cases rs' rule: remdups_adj.cases) fastforce+
qed

lemma path_suffix: "path hp first (as @ r # bs) \<Longrightarrow> path hp r (r # bs)"
proof (induction as arbitrary: first)
  case Nil
  then show ?case by (cases bs) auto
next
  case (Cons a as)
  then show ?case by (cases as) auto
qed

lemma path_distinct: "path hp first rs \<Longrightarrow> distinct rs"
proof (induction hp first rs rule: path.induct)
  case (3 hp first r s rs)
  have "r \<notin> set (s # rs)"
  proof
    assume "r \<in> set (s # rs)"
    then obtain as bs where split: "s # rs = as @ r # bs" by (meson split_list)
    with "3.prems" have "path hp first ((r # as) @ r # bs)" by simp
    then have "path hp r (r # bs)" by (rule path_suffix)
    moreover from "3.prems" have "path hp r (r # s # rs)" by auto
    ultimately have "r # bs = r # s # rs" by (rule path_unique)
    with split show False by simp
  qed
  with 3 show ?case by simp
qed simp_all

lemma path_valid: "path hp first rs \<Longrightarrow> r \<in> set rs \<Longrightarrow> r < length hp"
  by (auto simp: path_linked dest: linked_valid)

lemma path_length: 
  assumes "path hp first rs" shows "length rs \<le> length hp"
proof -
  have "distinct rs" using assms by (rule path_distinct)
  moreover have "set rs \<subseteq> {..<length hp}" using assms by (auto dest: path_valid)
  ultimately have "card (set rs) \<le> card {..<length hp}" by (intro card_mono) auto
  with \<open>distinct rs\<close> show ?thesis by (simp add: distinct_card)
qed

lemma path_cong:
  "length hp' = length hp \<Longrightarrow> (\<And>r. r \<in> set rs \<Longrightarrow> h_next (hp' ! r) = h_next (hp ! r))
   \<Longrightarrow> path hp' first rs = path hp first rs"
  by (induction hp first rs rule: path.induct) auto

lemma emit_loop_path: "path hp first rs \<Longrightarrow> length rs \<le> fuel \<Longrightarrow> emit_loop fuel hp first = Some rs"
proof (induction hp first rs arbitrary: fuel rule: path.induct)
  case (1 hp first)
  then show ?case by simp
next
  case (2 hp first r)
  then show ?case by (cases fuel) (auto simp: look_def)
next
  case (3 hp first r s rs)
  then show ?case by (cases fuel) (auto simp: look_def)
qed

lemma emit_loop_Some: "emit_loop fuel hp first = Some rs \<Longrightarrow> path hp first rs"
proof (induction fuel arbitrary: first rs)
  case 0
  then show ?case by simp
next
  case (Suc fuel)
  from Suc.prems obtain h where h: "first < length hp" "h = hp ! first"
    by (auto simp: look_def split: if_splits)
  show ?case
  proof (cases "h_next h")
    case None
    with Suc.prems h show ?thesis by (auto simp: look_def)
  next
    case (Some n)
    with Suc.prems h obtain rs' where rs': "emit_loop fuel hp n = Some rs'" "rs = first # rs'"
      by (auto simp: look_def)
    then have p: "path hp n rs'" using Suc.IH by simp
    then obtain t where "rs' = n # t" by (cases rs') (auto dest: path_hd)
    with p rs' h Some show ?thesis by simp
  qed
qed

lemma off_loop_Suc:
  "handler < length hp \<Longrightarrow>
   off_loop (Suc fuel) context callback hp head tail handler =
     (case off_body context callback hp head tail handler of
        (hp', head', tail') \<Rightarrow>
          (case look hp' handler of
             None \<Rightarrow> None
           | Some h' \<Rightarrow>
               (case h_next h' of
                  None \<Rightarrow> Some (hp', head', tail')
                | Some n \<Rightarrow> off_loop fuel context callback hp' head' tail' n)))"
  by (simp add: look_def off_body_def)

lemma mismatch_next [simp]: "mismatch context callback (h\<lparr>h_next := n\<rparr>) = mismatch context callback h"
  by (simp add: mismatch_def)

lemma length_set_next [simp]: "length (set_next hp t n) = length hp"
  by (simp add: set_next_def)

lemma nth_set_next:
  "x < length hp \<Longrightarrow> set_next hp t n ! x = (if x = t then (hp ! x)\<lparr>h_next := n\<rparr> else hp ! x)"
  by (simp add: set_next_def)

lemma nth_set_next_neq [simp]: "x \<noteq> t \<Longrightarrow> set_next hp t n ! x = hp ! x"
  by (simp add: set_next_def)

lemma off_body_spec:
  fixes cx :: "ctx option" and f :: "cb option"
  assumes "r < length hp" and "distinct (ks @ [r])" and "linked hp ks"
  defines "ks' \<equiv> (if mismatch cx f (hp ! r) then ks @ [r] else ks)"
  shows "\<exists>hp'. off_body cx f hp (first_of ks) (last_of ks) r = (hp', first_of ks', last_of ks')
      \<and> linked hp' ks' \<and> length hp' = length hp
      \<and> (\<forall>x. x \<notin> set ks \<longrightarrow> hp' ! x = hp ! x)
      \<and> (\<forall>x < length hp. hp' ! x = (hp ! x)\<lparr>h_next := h_next (hp' ! x)\<rparr>)"
proof (cases "mismatch cx f (hp ! r)")
  case False
  with assms show ?thesis by (simp add: off_body_def)
next
  case keep: True
  show ?thesis
  proof (cases "ks = []")
    case True
    with keep assms show ?thesis by (simp add: off_body_def first_of_def last_of_def)
  next
    case False
    let ?hp = "set_next hp (last ks) (Some r)"
    from False assms(3) have valid: "last ks < length hp"
      using linked_valid[of hp ks "last ks"] by simp
    from assms(2) False have "distinct (butlast ks @ [last ks])" by simp
    then have "\<And>x. x \<in> set (butlast ks) \<Longrightarrow> last ks \<noteq> x" by auto
    then have "linked ?hp ks = linked hp ks"
      by (intro linked_cong) (simp_all add: set_next_def)
    with assms(1,3) False valid have "linked ?hp (ks @ [r])"
      by (simp add: linked_snoc set_next_def)
    moreover have "\<forall>x. x \<notin> set ks \<longrightarrow> ?hp ! x = hp ! x"
    proof (intro allI impI)
      fix x assume "x \<notin> set ks"
      with False have "last ks \<noteq> x" using last_in_set[of ks] by auto
      then show "?hp ! x = hp ! x" by (simp add: set_next_def)
    qed
    moreover have "\<forall>x < length hp. ?hp ! x = (hp ! x)\<lparr>h_next := h_next (?hp ! x)\<rparr>"
      by (simp add: nth_set_next)
    ultimately show ?thesis using keep False
      by (simp add: off_body_def first_of_def last_of_def ks'_def set_next_def)
  qed
qed

lemma off_loop_spec:
  fixes cx :: "ctx option" and f :: "cb option"
  assumes "path hp r rs" and "distinct (ks @ rs)" and "linked hp ks" and "length rs \<le> fuel"
  shows "\<exists>hp'. off_loop fuel cx f hp (first_of ks) (last_of ks) r =
           Some (hp', first_of (ks @ filter (\<lambda>x. mismatch cx f (hp ! x)) rs),
                      last_of (ks @ filter (\<lambda>x. mismatch cx f (hp ! x)) rs))
      \<and> linked hp' (ks @ filter (\<lambda>x. mismatch cx f (hp ! x)) rs) \<and> length hp' = length hp
      \<and> (\<forall>x. x \<notin> set (ks @ filter (\<lambda>x. mismatch cx f (hp ! x)) rs) \<longrightarrow> hp' ! x = hp ! x)
      \<and> (\<forall>x < length hp. hp' ! x = (hp ! x)\<lparr>h_next := h_next (hp' ! x)\<rparr>)"
  using assms
proof (induction rs arbitrary: r ks hp fuel)
  case Nil
  then show ?case by simp
next
  case (Cons r0 rest)
  from Cons.prems(1) have r0: "r0 = r" and valid: "r < length hp"
    by (cases rest; simp)+
  from Cons.prems(4) obtain n where fuel: "fuel = Suc n" and n: "length rest \<le> n"
    by (cases fuel) auto
  define ks1 where "ks1 = (if mismatch cx f (hp ! r) then ks @ [r] else ks)"
  from Cons.prems(2) r0 have "distinct (ks @ [r])" by simp
  from off_body_spec[OF valid this Cons.prems(3), of cx f]
  obtain hp1 where body: "off_body cx f hp (first_of ks) (last_of ks) r = (hp1, first_of ks1, last_of ks1)"
    and l1: "linked hp1 ks1" and len1: "length hp1 = length hp"
    and frame1: "\<And>x. x \<notin> set ks \<Longrightarrow> hp1 ! x = hp ! x"
    and fields1: "\<And>x. x < length hp \<Longrightarrow> hp1 ! x = (hp ! x)\<lparr>h_next := h_next (hp1 ! x)\<rparr>"
    unfolding ks1_def by blast
  from Cons.prems(2) r0 have notin: "\<And>x. x \<in> set (r # rest) \<Longrightarrow> x \<notin> set ks" by auto
  then have same: "\<And>x. x \<in> set (r # rest) \<Longrightarrow> hp1 ! x = hp ! x" using frame1 by blast
  have ks1_sub: "set ks \<subseteq> set ks1" by (auto simp: ks1_def)
  show ?case
  proof (cases rest)
    case Nil
    with Cons.prems(1) r0 have "h_next (hp ! r) = None" by simp
    with same[of r] have "h_next (hp1 ! r) = None" by simp
    with body valid len1 fuel have
      "off_loop fuel cx f hp (first_of ks) (last_of ks) r = Some (hp1, first_of ks1, last_of ks1)"
      by (simp add: off_loop_Suc look_def del: off_loop.simps)
    moreover have "ks @ filter (\<lambda>x. mismatch cx f (hp ! x)) (r0 # rest) = ks1"
      using Nil r0 by (simp add: ks1_def)
    ultimately show ?thesis using l1 len1 frame1 fields1 ks1_sub by auto
  next
    case (Cons s rest')
    with Cons.prems(1) r0 have nx: "h_next (hp ! r) = Some s" and p: "path hp s rest"
      by simp_all
    from same[of r] nx have nx1: "h_next (hp1 ! r) = Some s" by simp
    have p1: "path hp1 s rest"
      using p len1 same path_cong[of hp1 hp rest s] by simp
    have d1: "distinct (ks1 @ rest)"
      using Cons.prems(2) r0 by (auto simp: ks1_def)
    from Cons.IH[OF p1 d1 l1 n, of ] obtain hp' where
      run: "off_loop n cx f hp1 (first_of ks1) (last_of ks1) s =
              Some (hp', first_of (ks1 @ filter (\<lambda>x. mismatch cx f (hp1 ! x)) rest),
                         last_of (ks1 @ filter (\<lambda>x. mismatch cx f (hp1 ! x)) rest))"
      and l': "linked hp' (ks1 @ filter (\<lambda>x. mismatch cx f (hp1 ! x)) rest)"
      and len': "length hp' = length hp1"
      and frame': "\<And>x. x \<notin> set (ks1 @ filter (\<lambda>x. mismatch cx f (hp1 ! x)) rest) \<Longrightarrow> hp' ! x = hp1 ! x"
      and fields': "\<And>x. x < length hp1 \<Longrightarrow> hp' ! x = (hp1 ! x)\<lparr>h_next := h_next (hp' ! x)\<rparr>"
      by blast
    have flt: "filter (\<lambda>x. mismatch cx f (hp1 ! x)) rest = filter (\<lambda>x. mismatch cx f (hp ! x)) rest"
      using same by (intro filter_cong) auto
    have eq: "ks @ filter (\<lambda>x. mismatch cx f (hp ! x)) (r0 # rest)
               = ks1 @ filter (\<lambda>x. mismatch cx f (hp1 ! x)) rest"
      using r0 flt by (simp add: ks1_def)
    have "off_loop fuel cx f hp (first_of ks) (last_of ks) r =
            off_loop n cx f hp1 (first_of ks1) (last_of ks1) s"
      using body valid len1 fuel nx1 by (simp add: off_loop_Suc look_def del: off_loop.simps)
    moreover have "\<forall>x. x \<notin> set (ks1 @ filter (\<lambda>x. mismatch cx f (hp1 ! x)) rest) \<longrightarrow> hp' ! x = hp ! x"
      using frame' frame1 ks1_sub by auto
    moreover have "\<forall>x < length hp. hp' ! x = (hp ! x)\<lparr>h_next := h_next (hp' ! x)\<rparr>"
    proof (intro allI impI)
      fix x assume x: "x < length hp"
      from fields'[of x] x len1 have "hp' ! x = (hp1 ! x)\<lparr>h_next := h_next (hp' ! x)\<rparr>" by simp
      also from fields1[OF x] have "hp1 ! x = (hp ! x)\<lparr>h_next := h_next (hp1 ! x)\<rparr>" .
      finally show "hp' ! x = (hp ! x)\<lparr>h_next := h_next (hp' ! x)\<rparr>" by simp
    qed
    ultimately show ?thesis using run l' len' len1 unfolding eq by simp
  qed
qed

lemma members_eqI: "chain_ok (heap me) (handlers me event) rs \<Longrightarrow> members me event = rs"
proof (cases "handlers me event")
  case None
  then show "chain_ok (heap me) (handlers me event) rs \<Longrightarrow> ?thesis" by (simp add: members_def)
next
  case (Some c)
  assume ok: "chain_ok (heap me) (handlers me event) rs"
  show ?thesis
  proof (cases "c_head c")
    case None
    with ok Some show ?thesis by (simp add: members_def)
  next
    case (Some first)
    with ok \<open>handlers me event = Some c\<close> have p: "path (heap me) first rs" by simp
    then have "emit_loop (length (heap me)) (heap me) first = Some rs"
      by (intro emit_loop_path path_length)
    with Some \<open>handlers me event = Some c\<close> show ?thesis by (simp add: members_def)
  qed
qed

lemma well_linkedI:
  assumes "\<And>event. chain_ok (heap me) (handlers me event) (L event)"
    and "\<And>e e'. e \<noteq> e' \<Longrightarrow> set (L e) \<inter> set (L e') = {}"
  shows "well_linked me"
proof -
  have "\<And>event. members me event = L event" using assms(1) by (rule members_eqI)
  with assms show ?thesis by (simp add: well_linked_def)
qed

lemma wf_chain_ok: "well_linked me \<Longrightarrow> chain_ok (heap me) (handlers me event) (members me event)"
  unfolding well_linked_def by blast

lemma wf_disjoint: "well_linked me \<Longrightarrow> e \<noteq> e' \<Longrightarrow> r \<in> set (members me e) \<Longrightarrow> r \<notin> set (members me e')"
  unfolding well_linked_def by blast

lemma chain_ok_valid: "chain_ok hp c rs \<Longrightarrow> r \<in> set rs \<Longrightarrow> r < length hp"
proof (cases c)
  case None
  then show "chain_ok hp c rs \<Longrightarrow> r \<in> set rs \<Longrightarrow> ?thesis" by simp
next
  case (Some ch)
  then show "chain_ok hp c rs \<Longrightarrow> r \<in> set rs \<Longrightarrow> ?thesis"
    by (cases "c_head ch") (auto dest: path_valid)
qed

lemma members_valid: "well_linked me \<Longrightarrow> r \<in> set (members me event) \<Longrightarrow> r < length (heap me)"
  using chain_ok_valid wf_chain_ok by blast

lemma members_distinct: "well_linked me \<Longrightarrow> distinct (members me event)"
  using wf_chain_ok[of me event]
  by (cases "handlers me event") (auto split: option.splits dest: path_distinct)

lemma chain_ok_cong:
  assumes "chain_ok hp c rs" and "length hp' = length hp"
    and "\<And>r. r \<in> set rs \<Longrightarrow> h_next (hp' ! r) = h_next (hp ! r)"
  shows "chain_ok hp' c rs"
proof (cases c)
  case None
  with assms(1) show ?thesis by simp
next
  case (Some ch)
  show ?thesis
  proof (cases "c_head ch")
    case None
    with assms(1) Some show ?thesis by simp
  next
    case (Some first)
    with assms(1) \<open>c = Some ch\<close> have "path hp first rs" "c_tail ch = Some (last rs)" by simp_all
    moreover have "path hp' first rs = path hp first rs" using assms(2,3) by (rule path_cong)
    ultimately show ?thesis using Some \<open>c = Some ch\<close> by simp
  qed
qed

lemma wf_EventEmitter: "well_linked (EventEmitter w)"
  by (rule well_linkedI[where L = "\<lambda>_. []"]) (simp_all add: EventEmitter_def builtin_def)

lemma path_append: "path hp first rs \<Longrightarrow> path (hp @ xs) first rs"
  by (induction hp first rs rule: path.induct) (auto simp: nth_append)

lemma linked_append: "linked hp rs \<Longrightarrow> linked (hp @ xs) rs"
  by (induction hp rs rule: linked.induct) (auto simp: nth_append)

lemma path_snoc:
  assumes "path hp first rs" and "h_next h = None"
  shows "path (set_next (hp @ [h]) (last rs) (Some (length hp))) first (rs @ [length hp])"
proof -
  let ?n = "length hp"
  let ?hp = "set_next (hp @ [h]) (last rs) (Some ?n)"
  from assms(1) have ne: "rs \<noteq> []" and hd: "hd rs = first" and l: "linked hp rs"
    by (simp_all add: path_linked)
  from assms(1) have valid: "\<And>r. r \<in> set rs \<Longrightarrow> r < length hp" by (rule path_valid)
  from assms(1) have "distinct rs" by (rule path_distinct)
  with ne have "distinct (butlast rs @ [last rs])" by simp
  then have nb: "\<And>x. x \<in> set (butlast rs) \<Longrightarrow> x \<noteq> last rs" by auto
  have "linked (hp @ [h]) rs" using l by (rule linked_append)
  moreover have "linked ?hp rs = linked (hp @ [h]) rs"
    using nb by (intro linked_cong) simp_all
  ultimately have 1: "linked ?hp rs" by simp
  have lt: "last rs < length hp" using ne valid by simp
  then have 2: "h_next (?hp ! last rs) = Some ?n"
    by (simp add: nth_set_next nth_append)
  from lt have 3: "h_next (?hp ! ?n) = None"
    using assms(2) by (simp add: nth_set_next nth_append)
  have "linked ?hp (rs @ [?n])"
    unfolding linked_snoc using 1 2 by simp
  moreover have "hd (rs @ [?n]) = first" "last (rs @ [?n]) = ?n" "rs @ [?n] \<noteq> []"
    using ne hd by simp_all
  ultimately show ?thesis
    unfolding path_linked using 3 by presburger
qed

lemma chain_ok_append: "chain_ok hp c rs \<Longrightarrow> chain_ok (hp @ xs) c rs"
  by (cases c) (auto split: option.splits intro: path_append)

lemma chain_ok_tail:
  "chain_ok hp (Some c) rs \<Longrightarrow> c_tail c = Some t \<Longrightarrow> \<exists>first. c_head c = Some first \<and> path hp first rs \<and> t = last rs"
  by (cases "c_head c") auto

lemma chain_ok_no_tail: "chain_ok hp (Some c) rs \<Longrightarrow> c_tail c = None \<Longrightarrow> c_head c = None \<and> rs = []"
  by (cases "c_head c") auto

lemma link_handler_fresh:
  "handlers me event = None \<Longrightarrow>
   link_handler event cx f me =
     me\<lparr>heap := heap me @ [\<lparr>h_callback = f, h_context = cx, h_handled = None, h_next = None\<rparr>],
        handlers := (handlers me)
          (event \<mapsto> new_chain\<lparr>c_head := Some (length (heap me)), c_tail := Some (length (heap me))\<rparr>)\<rparr>"
  by (simp add: link_handler_def Let_def)

lemma link_handler_first:
  "handlers me event = Some c \<Longrightarrow> c_tail c = None \<Longrightarrow>
   link_handler event cx f me =
     me\<lparr>heap := heap me @ [\<lparr>h_callback = f, h_context = cx, h_handled = None, h_next = None\<rparr>],
        handlers := (handlers me)
          (event \<mapsto> c\<lparr>c_head := Some (length (heap me)), c_tail := Some (length (heap me))\<rparr>)\<rparr>"
  by (simp add: link_handler_def Let_def)

lemma link_handler_tail:
  "handlers me event = Some c \<Longrightarrow> c_tail c = Some t \<Longrightarrow>
   link_handler event cx f me =
     me\<lparr>heap := set_next (heap me @ [\<lparr>h_callback = f, h_context = cx, h_handled = None, h_next = None\<rparr>])
                t (Some (length (heap me))),
        handlers := (handlers me)(event \<mapsto> c\<lparr>c_tail := Some (length (heap me))\<rparr>)\<rparr>"
  by (simp add: link_handler_def Let_def)

lemma link_handler_chain_ok:
  assumes "well_linked me"
  shows "chain_ok (heap (link_handler event cx f me)) (handlers (link_handler event cx f me) e)
           (if e = event then members me event @ [length (heap me)] else members me e)"
proof -
  let ?n = "length (heap me)"
  let ?h = "\<lparr>h_callback = f, h_context = cx, h_handled = None, h_next = None\<rparr>"
  let ?hp = "heap me @ [?h]"
  let ?me = "link_handler event cx f me"
  have ok: "chain_ok (heap me) (handlers me x) (members me x)" for x
    using assms by (rule wf_chain_ok)
  then have ok': "chain_ok ?hp (handlers me x) (members me x)" for x
    by (rule chain_ok_append)
  have single: "path ?hp ?n [?n]" by simp
  consider (fresh) "handlers me event = None"
    | (first) c where "handlers me event = Some c" "c_tail c = None"
    | (tail) c t where "handlers me event = Some c" "c_tail c = Some t"
    by (cases "handlers me event") auto
  then show ?thesis
  proof cases
    case fresh
    with ok[of event] have nil: "members me event = []" by simp
    show ?thesis
    proof (cases "e = event")
      case True
      with nil single show ?thesis by (simp add: link_handler_fresh[OF fresh] new_chain_def)
    next
      case False
      with ok'[of e] show ?thesis by (simp add: link_handler_fresh[OF fresh])
    qed
  next
    case first
    with ok[of event] have nil: "members me event = []" using chain_ok_no_tail by auto
    show ?thesis
    proof (cases "e = event")
      case True
      with nil single show ?thesis by (simp add: link_handler_first[OF first])
    next
      case False
      with ok'[of e] show ?thesis by (simp add: link_handler_first[OF first])
    qed
  next
    case (tail c t)
    with ok[of event]
    obtain first where first: "c_head c = Some first" "path (heap me) first (members me event)"
      "t = last (members me event)"
      using chain_ok_tail[of "heap me" c "members me event" t] by auto
    show ?thesis
    proof (cases "e = event")
      case True
      have "path (set_next ?hp t (Some ?n)) first (members me event @ [?n])"
        using path_snoc[OF first(2), of ?h] first(3) by simp
      with True first(1) show ?thesis
        by (simp add: link_handler_tail[OF tail])
    next
      case False
      from first have "t \<in> set (members me event)" by (auto simp: path_linked)
      with False have tnotin: "t \<notin> set (members me e)"
        using wf_disjoint[OF assms, of event e t] by auto
      have "chain_ok (set_next ?hp t (Some ?n)) (handlers me e) (members me e)"
      proof (rule chain_ok_cong[OF ok'[of e]])
        show "length (set_next ?hp t (Some ?n)) = length ?hp" by simp
      next
        fix r assume "r \<in> set (members me e)"
        with tnotin have "r \<noteq> t" by auto
        then show "h_next (set_next ?hp t (Some ?n) ! r) = h_next (?hp ! r)" by simp
      qed
      with False show ?thesis by (simp add: link_handler_tail[OF tail])
    qed
  qed
qed

lemma link_handler_wf: "well_linked me \<Longrightarrow> well_linked (link_handler event cx f me)"
proof (rule well_linkedI[where L = "\<lambda>e. if e = event then members me event @ [length (heap me)] else members me e"])
  fix e assume "well_linked me"
  then show "chain_ok (heap (link_handler event cx f me)) (handlers (link_handler event cx f me) e)
           (if e = event then members me event @ [length (heap me)] else members me e)"
    by (rule link_handler_chain_ok)
next
  fix e e' :: string assume well_linked: "well_linked me" and ne: "e \<noteq> e'"
  have fresh: "length (heap me) \<notin> set (members me x)" for x
  proof
    assume "length (heap me) \<in> set (members me x)"
    from members_valid[OF well_linked this] show False by simp
  qed
  from well_linked ne have "set (members me e) \<inter> set (members me e') = {}"
    unfolding well_linked_def by blast
  with fresh ne show "set (if e = event then members me event @ [length (heap me)] else members me e) \<inter>
     set (if e' = event then members me event @ [length (heap me)] else members me e') = {}"
    by auto
qed

lemma link_handler_members:
  "well_linked me \<Longrightarrow> members (link_handler event cx f me) e =
     (if e = event then members me event @ [length (heap me)] else members me e)"
  by (rule members_eqI) (rule link_handler_chain_ok)

lemma link_handler_length: "length (heap (link_handler event cx f me)) = Suc (length (heap me))"
  by (simp add: link_handler_def Let_def split: option.splits)

lemma first_of_Nil [simp]: "first_of [] = None" and last_of_Nil [simp]: "last_of [] = None"
  by (simp_all add: first_of_def last_of_def)

lemma first_of_Cons [simp]: "rs \<noteq> [] \<Longrightarrow> first_of rs = Some (hd rs)"
  and last_of_Cons [simp]: "rs \<noteq> [] \<Longrightarrow> last_of rs = Some (last rs)"
  by (simp_all add: first_of_def last_of_def)

lemma off_unknown: "handlers me event = None \<Longrightarrow> off event cx f me = Some me"
  by (simp add: off_def)

lemma off_empty: "handlers me event = Some c \<Longrightarrow> c_head c = None \<Longrightarrow> off event cx f me = Some me"
  by (simp add: off_def)

lemma off_walk:
  assumes "well_linked me" and "handlers me event = Some c" and "c_head c = Some first"
  shows "\<exists>hp'. off_loop (length (heap me)) cx f (heap me) None None first =
           Some (hp', first_of (survivors cx f me event), last_of (survivors cx f me event))
      \<and> linked hp' (survivors cx f me event) \<and> length hp' = length (heap me)
      \<and> (\<forall>x. x \<notin> set (survivors cx f me event) \<longrightarrow> hp' ! x = heap me ! x)
      \<and> (\<forall>x < length (heap me). hp' ! x = (heap me ! x)\<lparr>h_next := h_next (hp' ! x)\<rparr>)"
proof -
  from wf_chain_ok[OF assms(1), of event] assms(2,3)
  have p: "path (heap me) first (members me event)" by simp
  have "distinct ([] @ members me event)" using assms(1) by (simp add: members_distinct)
  from off_loop_spec[OF p this _ path_length[OF p], of cx f]
  show ?thesis by (simp add: survivors_def)
qed

lemma off_some:
  assumes "off_loop (length (heap me)) cx f (heap me) None None first = Some (hp', first_of ks, last_of ks)"
    and "handlers me event = Some c" and "c_head c = Some first"
  shows "off event cx f me =
    Some (me\<lparr>heap := (if ks = [] then hp' else set_next hp' (last ks) None),
             handlers := (handlers me)(event \<mapsto> c\<lparr>c_head := first_of ks, c_tail := last_of ks\<rparr>)\<rparr>)"
  using assms by (cases "ks = []") (simp_all add: off_def)

lemma off_chain_ok:
  assumes "well_linked me"
  shows "\<exists>me'. off event cx f me = Some me' \<and> length (heap me') = length (heap me)
     \<and> (\<forall>e. chain_ok (heap me') (handlers me' e)
               (if e = event then survivors cx f me event else members me e))
     \<and> (\<forall>x < length (heap me). heap me' ! x = (heap me ! x)\<lparr>h_next := h_next (heap me' ! x)\<rparr>)"
proof -
  have ok: "chain_ok (heap me) (handlers me x) (members me x)" for x
    using assms by (rule wf_chain_ok)
  consider (unknown) "handlers me event = None"
    | (empty) c where "handlers me event = Some c" "c_head c = None"
    | (walk) c first where "handlers me event = Some c" "c_head c = Some first"
    by (cases "handlers me event") auto
  then show ?thesis
  proof cases
    case unknown
    with ok[of event] have nil: "members me event = []" by simp
    then have "survivors cx f me event = []" by (simp add: survivors_def)
    moreover from ok[of event] nil have "chain_ok (heap me) (handlers me event) []" by simp
    ultimately show ?thesis using ok by (simp add: off_unknown[OF unknown])
  next
    case empty
    with ok[of event] have nil: "members me event = []" by simp
    then have "survivors cx f me event = []" by (simp add: survivors_def)
    moreover from ok[of event] nil have "chain_ok (heap me) (handlers me event) []" by simp
    ultimately show ?thesis using ok by (simp add: off_empty[OF empty])
  next
    case (walk c first)
    let ?ks = "survivors cx f me event"
    from off_walk[OF assms walk, of cx f] obtain hp' where
      loop: "off_loop (length (heap me)) cx f (heap me) None None first = Some (hp', first_of ?ks, last_of ?ks)"
      and l: "linked hp' ?ks" and len: "length hp' = length (heap me)"
      and frame: "\<And>x. x \<notin> set ?ks \<Longrightarrow> hp' ! x = heap me ! x"
      and fields: "\<And>x. x < length (heap me) \<Longrightarrow> hp' ! x = (heap me ! x)\<lparr>h_next := h_next (hp' ! x)\<rparr>"
      by blast
    let ?hp = "if ?ks = [] then hp' else set_next hp' (last ?ks) None"
    let ?me = "me\<lparr>heap := ?hp, handlers := (handlers me)(event \<mapsto> c\<lparr>c_head := first_of ?ks, c_tail := last_of ?ks\<rparr>)\<rparr>"
    have off: "off event cx f me = Some ?me" using loop walk by (rule off_some)
    have len': "length ?hp = length (heap me)" using len by simp
    have sub: "set ?ks \<subseteq> set (members me event)" by (auto simp: survivors_def)
    have dist: "distinct ?ks" using assms by (simp add: survivors_def members_distinct)
    have frame': "?hp ! x = heap me ! x" if "x \<notin> set ?ks" for x
    proof (cases "?ks = []")
      case True
      with frame[OF that] show ?thesis by simp
    next
      case False
      with that have "x \<noteq> last ?ks" using last_in_set[of ?ks] by auto
      with frame[OF that] False show ?thesis by simp
    qed
    have this_chain: "chain_ok ?hp (Some (c\<lparr>c_head := first_of ?ks, c_tail := last_of ?ks\<rparr>)) ?ks"
    proof (cases "?ks = []")
      case True
      then show ?thesis by simp
    next
      case False
      from dist False have "distinct (butlast ?ks @ [last ?ks])" by simp
      then have nb: "x \<noteq> last ?ks" if "x \<in> set (butlast ?ks)" for x using that by auto
      have "linked ?hp ?ks = linked hp' ?ks"
        using nb by (intro linked_cong) (simp_all add: False)
      moreover have "last ?ks < length hp'" using False linked_valid[OF l, of "last ?ks"] by simp
      then have "h_next (?hp ! last ?ks) = None" using False by (simp add: nth_set_next)
      ultimately have "path ?hp (hd ?ks) ?ks" using l False unfolding path_linked by simp
      with False show ?thesis by simp
    qed
    have other: "chain_ok ?hp (handlers me e) (members me e)" if "e \<noteq> event" for e
    proof (rule chain_ok_cong[OF ok[of e]])
      show "length ?hp = length (heap me)" by (rule len')
    next
      fix r assume "r \<in> set (members me e)"
      with that assms have "r \<notin> set (members me event)" using wf_disjoint by blast
      with sub have "r \<notin> set ?ks" by auto
      then show "h_next (?hp ! r) = h_next (heap me ! r)" using frame' by simp
    qed
    have fields': "?hp ! x = (heap me ! x)\<lparr>h_next := h_next (?hp ! x)\<rparr>" if "x < length (heap me)" for x
    proof (cases "?ks \<noteq> [] \<and> x = last ?ks")
      case True
      with that len have a: "?hp ! x = (hp' ! x)\<lparr>h_next := None\<rparr>"
        by (simp add: nth_set_next)
      have b: "hp' ! x = (heap me ! x)\<lparr>h_next := h_next (hp' ! x)\<rparr>"
        by (rule fields[OF that])
      have "(hp' ! x)\<lparr>h_next := None\<rparr> = (heap me ! x)\<lparr>h_next := None\<rparr>"
        by (subst b) simp
      with a have "?hp ! x = (heap me ! x)\<lparr>h_next := None\<rparr>" by simp
      moreover from a have "h_next (?hp ! x) = None" by simp
      ultimately show ?thesis by simp
    next
      case False
      then have "?hp ! x = hp' ! x" by auto
      with fields[OF that] show ?thesis by simp
    qed
    have "chain_ok (heap ?me) (handlers ?me e) (if e = event then ?ks else members me e)" for e
    proof (cases "e = event")
      case True
      have "heap ?me = ?hp" by simp
      moreover have "handlers ?me event = Some (c\<lparr>c_head := first_of ?ks, c_tail := last_of ?ks\<rparr>)" by simp
      ultimately show ?thesis using this_chain True by presburger
    next
      case False
      have "heap ?me = ?hp" by simp
      moreover have "handlers ?me e = handlers me e" using False by simp
      ultimately show ?thesis using other[OF False] False by presburger
    qed
    then have "\<forall>e. chain_ok (heap ?me) (handlers ?me e) (if e = event then ?ks else members me e)" ..
    moreover have "length (heap ?me) = length (heap me)" using len' by simp
    moreover have "\<forall>x < length (heap me). heap ?me ! x = (heap me ! x)\<lparr>h_next := h_next (heap ?me ! x)\<rparr>"
    proof (intro allI impI)
      fix x assume "x < length (heap me)"
      from fields'[OF this] show "heap ?me ! x = (heap me ! x)\<lparr>h_next := h_next (heap ?me ! x)\<rparr>"
        by simp
    qed
    ultimately show ?thesis using off by blast
  qed
qed

section \<open>What the runner pattern matches\<close>

lemma colon_not_terminator [simp]: "\<not> is_line_terminator CHR '':''"
  by (simp add: is_line_terminator_def)

lemma splits_Nil [simp]: "\<not> splits pre []"
  by (simp add: splits_def)

lemma splits_Cons:
  "splits pre (c # cs) =
     ((pre \<noteq> [] \<and> c = CHR '':'' \<and> takeWhile is_word cs \<noteq> []) \<or>
      (\<not> is_line_terminator c \<and> splits (pre @ [c]) cs))"
proof
  assume "splits pre (c # cs)"
  then obtain a b where ab: "c # cs = a @ CHR '':'' # b" "pre @ a \<noteq> []"
    "\<forall>c \<in> set a. \<not> is_line_terminator c" "takeWhile is_word b \<noteq> []"
    unfolding splits_def by blast
  show "(pre \<noteq> [] \<and> c = CHR '':'' \<and> takeWhile is_word cs \<noteq> []) \<or>
      (\<not> is_line_terminator c \<and> splits (pre @ [c]) cs)"
  proof (cases a)
    case Nil
    with ab show ?thesis by simp
  next
    case (Cons x a')
    with ab have "cs = a' @ CHR '':'' # b" "c = x" "\<not> is_line_terminator c"
      "\<forall>c \<in> set a'. \<not> is_line_terminator c" by auto
    with ab(4) have "splits (pre @ [c]) cs" unfolding splits_def by blast
    with \<open>\<not> is_line_terminator c\<close> show ?thesis by simp
  qed
next
  assume "(pre \<noteq> [] \<and> c = CHR '':'' \<and> takeWhile is_word cs \<noteq> []) \<or>
      (\<not> is_line_terminator c \<and> splits (pre @ [c]) cs)"
  then show "splits pre (c # cs)"
  proof
    assume "pre \<noteq> [] \<and> c = CHR '':'' \<and> takeWhile is_word cs \<noteq> []"
    then have "c # cs = [] @ CHR '':'' # cs \<and> pre @ [] \<noteq> [] \<and> (\<forall>c \<in> set []. \<not> is_line_terminator c) \<and>
            takeWhile is_word cs \<noteq> []" by simp
    then show ?thesis unfolding splits_def by blast
  next
    assume r: "\<not> is_line_terminator c \<and> splits (pre @ [c]) cs"
    then obtain a b where ab: "cs = a @ CHR '':'' # b"
      "\<forall>c \<in> set a. \<not> is_line_terminator c" "takeWhile is_word b \<noteq> []"
      unfolding splits_def by blast
    with r have "c # cs = (c # a) @ CHR '':'' # b \<and> pre @ (c # a) \<noteq> [] \<and>
       (\<forall>x \<in> set (c # a). \<not> is_line_terminator x) \<and> takeWhile is_word b \<noteq> []" by simp
    then show ?thesis unfolding splits_def by blast
  qed
qed

lemma RE_RUNNER_from_None: "RE_RUNNER_from pre s = None \<longleftrightarrow> \<not> splits pre s"
proof (induction s arbitrary: pre)
  case Nil
  then show ?case by simp
next
  case (Cons c cs)
  show ?case
    unfolding splits_Cons using Cons.IH[of "pre @ [c]"]
    by (auto split: option.splits)
qed

lemma RE_RUNNER_from_Some:
  "RE_RUNNER_from pre s = Some (name, rn) \<Longrightarrow>
   \<exists>a b. s = a @ CHR '':'' # b \<and> name = pre @ a \<and> name \<noteq> [] \<and>
         (\<forall>c \<in> set a. \<not> is_line_terminator c) \<and> rn = takeWhile is_word b \<and> rn \<noteq> [] \<and>
         \<not> splits '':'' b"
proof (induction s arbitrary: pre)
  case Nil
  then show ?case by simp
next
  case (Cons c cs)
  show ?case
  proof (cases "\<not> is_line_terminator c \<and> RE_RUNNER_from (pre @ [c]) cs \<noteq> None")
    case True
    with Cons.prems have "RE_RUNNER_from (pre @ [c]) cs = Some (name, rn)"
      by (auto split: option.splits)
    from Cons.IH[OF this] obtain a b where ab: "cs = a @ CHR '':'' # b" "name = (pre @ [c]) @ a"
      "name \<noteq> []" "\<forall>c \<in> set a. \<not> is_line_terminator c" "rn = takeWhile is_word b" "rn \<noteq> []"
      "\<not> splits '':'' b" by blast
    with True have "c # cs = (c # a) @ CHR '':'' # b \<and> name = pre @ (c # a) \<and> name \<noteq> [] \<and>
         (\<forall>x \<in> set (c # a). \<not> is_line_terminator x) \<and> rn = takeWhile is_word b \<and> rn \<noteq> [] \<and>
         \<not> splits '':'' b" by simp
    then show ?thesis by blast
  next
    case False
    with Cons.prems have here: "pre \<noteq> []" "c = CHR '':''" "takeWhile is_word cs \<noteq> []"
      "name = pre" "rn = takeWhile is_word cs"
      by (auto split: option.splits if_splits)
    from False here(2) have "RE_RUNNER_from (pre @ [c]) cs = None"
      by (cases "RE_RUNNER_from (pre @ [c]) cs") auto
    then have "\<not> splits (pre @ [c]) cs" by (simp add: RE_RUNNER_from_None)
    then have "\<not> splits '':'' cs" by (simp add: splits_def)
    with here have "c # cs = [] @ CHR '':'' # cs \<and> name = pre @ [] \<and> name \<noteq> [] \<and>
         (\<forall>x \<in> set []. \<not> is_line_terminator x) \<and> rn = takeWhile is_word cs \<and> rn \<noteq> [] \<and>
         \<not> splits '':'' cs" by simp
    then show ?thesis by blast
  qed
qed

lemma splits_prefix: "pre \<noteq> [] \<Longrightarrow> pre' \<noteq> [] \<Longrightarrow> splits pre s = splits pre' s"
  by (simp add: splits_def)

lemma RE_RUNNER_exec_Some:
  assumes "RE_RUNNER_exec event = Some (name, rn)"
  shows "\<exists>b. event = name @ CHR '':'' # b \<and> name \<noteq> [] \<and> (\<forall>c \<in> set name. \<not> is_line_terminator c) \<and>
            rn = takeWhile is_word b \<and> rn \<noteq> [] \<and> \<not> splits (name @ '':'') b"
proof -
  from RE_RUNNER_from_Some[OF assms[unfolded RE_RUNNER_exec_def]]
  obtain a b where "event = a @ CHR '':'' # b" "name = [] @ a" "name \<noteq> []"
    "\<forall>c \<in> set a. \<not> is_line_terminator c" "rn = takeWhile is_word b" "rn \<noteq> []" "\<not> splits '':'' b"
    by blast
  moreover have "splits (name @ '':'') b = splits '':'' b" by (rule splits_prefix) simp_all
  ultimately show ?thesis by auto
qed

lemma RE_RUNNER_exec_complete:
  assumes "event = name @ CHR '':'' # b" and "name \<noteq> []"
    and "\<forall>c \<in> set name. \<not> is_line_terminator c"
    and "takeWhile is_word b \<noteq> []" and "\<not> splits (name @ '':'') b"
  shows "RE_RUNNER_exec event = Some (name, takeWhile is_word b)"
proof -
  have "splits [] event" unfolding splits_def using assms(1-4) by auto
  then have "RE_RUNNER_exec event \<noteq> None"
    by (simp add: RE_RUNNER_exec_def RE_RUNNER_from_None)
  then obtain n r where nr: "RE_RUNNER_exec event = Some (n, r)" by auto
  from RE_RUNNER_exec_Some[OF this] obtain b' where b':
    "event = n @ CHR '':'' # b'" "n \<noteq> []" "\<forall>c \<in> set n. \<not> is_line_terminator c"
    "r = takeWhile is_word b'" "r \<noteq> []" "\<not> splits (n @ '':'') b'" by blast
  from assms(1) b'(1) have "name @ CHR '':'' # b = n @ CHR '':'' # b'" by simp
  then obtain us where us: "(name = n @ us \<and> us @ CHR '':'' # b = CHR '':'' # b') \<or>
      (name @ us = n \<and> CHR '':'' # b = us @ CHR '':'' # b')"
    by (auto simp: append_eq_append_conv2)
  have "us = []"
  proof (rule ccontr)
    assume "us \<noteq> []"
    then obtain x us' where x: "us = x # us'" by (cases us) auto
    from us show False
    proof
      assume l: "name = n @ us \<and> us @ CHR '':'' # b = CHR '':'' # b'"
      with x have "b' = us' @ CHR '':'' # b" by simp
      moreover from l x assms(3) have "\<forall>c \<in> set us'. \<not> is_line_terminator c" by simp
      ultimately have "splits (n @ '':'') b'" unfolding splits_def using assms(4) by auto
      with b'(6) show False by simp
    next
      assume r: "name @ us = n \<and> CHR '':'' # b = us @ CHR '':'' # b'"
      with x have "b = us' @ CHR '':'' # b'" by simp
      moreover from r x b'(3) have "\<forall>c \<in> set us'. \<not> is_line_terminator c" by auto
      ultimately have "splits (name @ '':'') b" unfolding splits_def using b'(4,5) by auto
      with assms(5) show False by simp
    qed
  qed
  with us have "n = name" "b' = b" by auto
  with nr b'(4) show ?thesis by simp
qed

lemma select_runner_unknown:
  "re event = Some (name, rn) \<Longrightarrow> runners env rn = None \<Longrightarrow>
   select_runner re env event = Inl (UnknownRunner rn)"
  by (simp add: select_runner_def)

lemma emit_unknown:
  "RE_RUNNER_exec event = Some (name, rn) \<Longrightarrow> runners env rn = None \<Longrightarrow>
   emit_at nest env event args me = Some (me, Raised (UnknownRunner rn))"
  by (simp add: emit_at_def select_runner_unknown)

lemma replay_unknown:
  "re event = Some (name, rn) \<Longrightarrow> runners env rn = None \<Longrightarrow>
   replay nest re env event senile cx f me = Some (me, Raised (UnknownRunner rn))"
  by (simp add: replay_def select_runner_unknown)

lemma exec_bogus: "RE_RUNNER_exec ''evt:bogus'' = Some (''evt'', ''bogus'')"
  by (simp add: RE_RUNNER_exec_def is_line_terminator_def is_word_def)


section \<open>What subscribing and unsubscribing preserve\<close>

lemma grows_refl [simp]: "grows me me"
  by (simp add: grows_def)

lemma grows_trans: "grows a b \<Longrightarrow> grows b c \<Longrightarrow> grows a c"
  unfolding grows_def by (metis order_trans order_less_le_trans)

lemma untouched_refl [simp]: "untouched me me"
  by (simp add: untouched_def)

lemma untouched_trans: "untouched a b \<Longrightarrow> untouched b c \<Longrightarrow> untouched a c"
  unfolding untouched_def using grows_trans[of a b c]
  by (metis grows_def order_less_le_trans)


lemma link_handler_untouched: "untouched me (link_handler event cx f me)"
proof -
  let ?h = "\<lparr>h_callback = f, h_context = cx, h_handled = None, h_next = None\<rparr>"
  consider (fresh) "handlers me event = None"
    | (first) c where "handlers me event = Some c" "c_tail c = None"
    | (tail) c t where "handlers me event = Some c" "c_tail c = Some t"
    by (cases "handlers me event") auto
  then show ?thesis
  proof cases
    case fresh
    then show ?thesis
      by (simp add: link_handler_fresh[OF fresh] untouched_def grows_def epoch_def memory_def
          nth_append new_chain_def)
  next
    case first
    then show ?thesis
      by (simp add: link_handler_first[OF first] untouched_def grows_def epoch_def memory_def
          nth_append)
  next
    case (tail c t)
    have "set_next (heap me @ [?h]) t n ! x = (heap me ! x)\<lparr>h_next := h_next (set_next (heap me @ [?h]) t n ! x)\<rparr>"
      if "x < length (heap me)" for x n
      using that by (cases "x = t") (simp_all add: nth_set_next nth_append)
    then have "h_callback (set_next (heap me @ [?h]) t n ! x) = h_callback (heap me ! x) \<and>
       h_context (set_next (heap me @ [?h]) t n ! x) = h_context (heap me ! x) \<and>
       h_handled (set_next (heap me @ [?h]) t n ! x) = h_handled (heap me ! x)"
      if "x < length (heap me)" for x n
      using that by (cases "x = t") (simp_all add: nth_set_next nth_append)
    with tail show ?thesis
      by (simp add: link_handler_tail[OF tail] untouched_def grows_def epoch_def memory_def)
  qed
qed

lemma off_spec:
  assumes "well_linked me"
  shows "\<exists>me'. off event cx f me = Some me' \<and> well_linked me' \<and> untouched me me' \<and>
           length (heap me') = length (heap me) \<and>
           (\<forall>e. members me' e = (if e = event then survivors cx f me event else members me e))"
proof -
  from off_chain_ok[OF assms, of event cx f] obtain me' where
    off: "off event cx f me = Some me'" and len: "length (heap me') = length (heap me)"
    and ok: "\<And>e. chain_ok (heap me') (handlers me' e)
               (if e = event then survivors cx f me event else members me e)"
    and fields: "\<And>x. x < length (heap me) \<Longrightarrow> heap me' ! x = (heap me ! x)\<lparr>h_next := h_next (heap me' ! x)\<rparr>"
    by blast
  have mem: "members me' e = (if e = event then survivors cx f me event else members me e)" for e
    using ok by (rule members_eqI)
  have sub: "set (survivors cx f me event) \<subseteq> set (members me event)"
    by (auto simp: survivors_def)
  have "well_linked me'"
  proof (rule well_linkedI[where L = "\<lambda>e. if e = event then survivors cx f me event else members me e"])
    fix e e' :: string assume "e \<noteq> e'"
    with assms have "set (members me e) \<inter> set (members me e') = {}"
      "set (members me event) \<inter> set (members me e') = {} \<or> e' = event"
      "set (members me e) \<inter> set (members me event) = {} \<or> e = event"
      unfolding well_linked_def by blast+
    with sub \<open>e \<noteq> e'\<close>
    show "set (if e = event then survivors cx f me event else members me e) \<inter>
          set (if e' = event then survivors cx f me event else members me e') = {}"
      by auto
  qed (rule ok)
  moreover have "untouched me me'"
  proof -
    have f: "h_callback (heap me' ! x) = h_callback (heap me ! x) \<and>
          h_context (heap me' ! x) = h_context (heap me ! x) \<and>
          h_handled (heap me' ! x) = h_handled (heap me ! x)" if "x < length (heap me)" for x
      by (subst fields[OF that], simp)+
    have "epoch me' e = epoch me e \<and> memory me' e = memory me e" for e
      using off by (cases "e = event") (auto simp: off_def epoch_def memory_def split: option.splits prod.splits)
    moreover have "calls me' = calls me \<and> world me' = world me"
      using off by (auto simp: off_def split: option.splits prod.splits)
    moreover have "handlers me e \<noteq> None \<longrightarrow> handlers me' e \<noteq> None" for e
      using off by (cases "e = event") (auto simp: off_def split: option.splits prod.splits)
    ultimately show ?thesis using f len by (simp add: untouched_def grows_def)
  qed
  ultimately show ?thesis using off len mem by blast
qed



lemma off_handlers:
  assumes "off event cx f me = Some me'"
  shows "(\<forall>e. e \<noteq> event \<longrightarrow> handlers me' e = handlers me e) \<and>
         (handlers me event = None \<longrightarrow> me' = me) \<and>
         (\<forall>c. handlers me event = Some c \<longrightarrow>
            (\<exists>c'. handlers me' event = Some c' \<and> c_handled c' = c_handled c \<and> c_memory c' = c_memory c))"
  using assms by (auto simp: off_def split: option.splits prod.splits)



section \<open>The runners\<close>

lemma sequence_next_gen:
  "sequence_next nest env event cs handled args results direct me =
   gen_next False False nest env event cs handled args results direct me"
  by (induction cs arbitrary: results direct me)
     (auto simp: Let_def split: option.splits outcome.splits)

lemma hub_sequence_next_gen:
  "hub_sequence_next nest env event cs handled args results direct me =
   gen_next True False nest env event cs handled args results direct me"
  by (induction cs arbitrary: results direct me)
     (auto simp: Let_def split: option.splits outcome.splits)

lemma pipeline_next_gen:
  "pipeline_next nest env event cs handled args direct me =
   gen_next True True nest env event cs handled args results direct me"
  by (induction cs arbitrary: args results direct me)
     (auto simp: Let_def split: option.splits outcome.splits)

lemma run_gen:
  "\<forall>name. r \<noteq> Inherited name \<Longrightarrow>
   run nest r env event cs handled args me =
   gen_next (is_aware r) (is_piped r) nest env event cs handled args [] True me"
  by (cases r)
     (simp_all add: is_aware_def is_piped_def sequence_def hub_sequence_def pipeline_def
        sequence_next_gen hub_sequence_next_gen pipeline_next_gen[where results = "[]"])

lemma nth_stamp:
  "hp[c := (hp ! c)\<lparr>h_handled := s\<rparr>] ! r =
     (if r = c \<and> c < length hp then (hp ! c)\<lparr>h_handled := s\<rparr> else hp ! r)"
  by (cases "c < length hp") (auto simp: list_update_beyond)

lemma set_handled_wf: "well_linked me \<Longrightarrow> well_linked (set_handled c h me)"
proof (rule well_linkedI[where L = "members me"])
  fix event assume "well_linked me"
  then have "chain_ok (heap me) (handlers me event) (members me event)" by (rule wf_chain_ok)
  then have "chain_ok ((heap me)[c := (heap me ! c)\<lparr>h_handled := h\<rparr>]) (handlers me event) (members me event)"
    by (rule chain_ok_cong) (simp_all add: nth_stamp)
  then show "chain_ok (heap (set_handled c h me)) (handlers (set_handled c h me) event) (members me event)"
    by (simp add: set_handled_def)
next
  fix e e' :: string assume "well_linked me" "e \<noteq> e'"
  then show "set (members me e) \<inter> set (members me e') = {}" unfolding well_linked_def by blast
qed

lemma set_handled_grows: "grows me (set_handled c h me)"
  by (simp add: grows_def set_handled_def epoch_def nth_stamp)

lemma set_handled_simps [simp]:
  "length (heap (set_handled c h me)) = length (heap me)"
  "calls (set_handled c h me) = calls me"
  "world (set_handled c h me) = world me"
  "handlers (set_handled c h me) = handlers me"
  "memory (set_handled c h me) = memory me"
  by (simp_all add: set_handled_def memory_def fun_eq_iff)

lemma set_handled_stamp:
  "x < length (heap me) \<Longrightarrow>
   h_handled (heap (set_handled c h me) ! x) = (if x = c then h else h_handled (heap me ! x))"
  by (simp add: set_handled_def nth_stamp)

lemma set_memory_wf: "well_linked me \<Longrightarrow> well_linked (set_memory event args me)"
proof (rule well_linkedI[where L = "members me"])
  fix e assume "well_linked me"
  then have "chain_ok (heap me) (handlers me e) (members me e)" by (rule wf_chain_ok)
  then show "chain_ok (heap (set_memory event args me)) (handlers (set_memory event args me) e) (members me e)"
    by (cases "handlers me e") (auto simp: set_memory_def split: option.splits)
next
  fix e e' :: string assume "well_linked me" "e \<noteq> e'"
  then show "set (members me e) \<inter> set (members me e') = {}" unfolding well_linked_def by blast
qed

lemma set_memory_grows: "grows me (set_memory event args me)"
  by (auto simp: grows_def set_memory_def epoch_def split: option.splits)

lemma set_memory_simps [simp]:
  "heap (set_memory event args me) = heap me"
  "calls (set_memory event args me) = calls me"
  "world (set_memory event args me) = world me"
  by (simp_all add: set_memory_def)

lemma set_memory_memory:
  "memory (set_memory event args me) e =
     (if e = event \<and> handlers me event \<noteq> None then Some args else memory me e)"
  by (auto simp: set_memory_def memory_def split: option.splits)

lemma untouched_wf_irrelevant:
  "well_linked me \<Longrightarrow> well_linked (me\<lparr>calls := cs, world := w\<rparr>)"
proof -
  assume "well_linked me"
  moreover have "members (me\<lparr>calls := cs, world := w\<rparr>) = members me"
    by (simp add: members_def fun_eq_iff split: option.splits)
  ultimately show ?thesis by (simp add: well_linked_def)
qed

lemma perform_spec:
  "well_linked me \<Longrightarrow> \<forall>a \<in> set acts. \<not> dispatches a \<Longrightarrow>
   \<exists>me'. perform nest acts me = Some me' \<and> well_linked me' \<and> untouched me me'"
proof (induction acts arbitrary: me)
  case Nil
  then show ?case by simp
next
  case (Cons act acts)
  from Cons.prems(2) have rest: "\<forall>a \<in> set acts. \<not> dispatches a" and act: "\<not> dispatches act"
    by simp_all
  show ?case
  proof (cases act)
    case (Subscribe event cx f)
    from Cons.prems(1) have "well_linked (link_handler event cx f me)" by (rule link_handler_wf)
    from Cons.IH[OF this rest] obtain me' where
      "perform nest acts (link_handler event cx f me) = Some me'" "well_linked me'"
      "untouched (link_handler event cx f me) me'" by blast
    with Subscribe link_handler_untouched[of me event cx f] show ?thesis
      using untouched_trans by fastforce
  next
    case (Unsubscribe event cx f)
    from off_spec[OF Cons.prems(1), of event cx f] obtain me1 where
      me1: "off event cx f me = Some me1" "well_linked me1" "untouched me me1" by blast
    from Cons.IH[OF me1(2) rest] obtain me' where
      "perform nest acts me1 = Some me'" "well_linked me'" "untouched me1 me'" by blast
    with Unsubscribe me1 show ?thesis
      using untouched_trans by fastforce
  next
    case (Dispatch event args)
    with act show ?thesis by simp
  next
    case (Redispatch event senile cx f)
    with act show ?thesis by simp
  next
    case (Republish event cx f senile)
    with act show ?thesis by simp
  qed
qed


lemma untouched_grows: "untouched a b \<Longrightarrow> grows a b"
  by (simp add: untouched_def)

lemma call_spec:
  assumes "well_linked me" and "c < length (heap me)" and "no_dispatch env"
  shows "\<exists>me' out. call nest env c as me = Some (me', out) \<and> well_linked me' \<and> grows me me' \<and>
           calls me' = calls me @ [(c, as, out)] \<and> memory me' = memory me \<and>
           (\<forall>x < length (heap me). h_handled (heap me' ! x) = h_handled (heap me ! x))"
proof -
  obtain acts out w where inv:
    "invoke env (h_callback (heap me ! c)) (h_context (heap me ! c)) as (world me) = (acts, out, w)"
    by (metis prod_cases3)
  let ?me = "me\<lparr>calls := calls me @ [(c, as, out)], world := w\<rparr>"
  have "well_linked ?me" using assms(1) by (rule untouched_wf_irrelevant)
  have "\<forall>a \<in> set acts. \<not> dispatches a"
    using assms(3) inv unfolding no_dispatch_def by (metis fst_conv)
  from perform_spec[OF \<open>well_linked ?me\<close> this, of nest] obtain me' where
    me': "perform nest acts ?me = Some me'" "well_linked me'" "untouched ?me me'" by blast
  have "call nest env c as me = Some (me', out)"
    using assms(2) inv me'(1) by (simp add: call_def look_def)
  moreover from me'(3) have "grows me me'"
    by (simp add: untouched_def grows_def epoch_def)
  moreover from me'(3) have "calls me' = calls me @ [(c, as, out)]"
    by (simp add: untouched_def)
  moreover from me'(3) have "memory me' = memory me"
    by (simp add: untouched_def memory_def fun_eq_iff)
  moreover from me'(3) have "\<forall>x < length (heap me). h_handled (heap me' ! x) = h_handled (heap me ! x)"
    by (simp add: untouched_def)
  ultimately show ?thesis using me'(2) by blast
qed


lemma run_ok_done:
  assumes "well_linked me"
  shows "run_ok aware piped event [] args results direct me (set_memory event args me)
           (Resolved (if piped then args else JArr results)) []"
  unfolding run_ok_def
  using assms by (simp add: set_memory_wf set_memory_grows set_memory_memory)

lemma run_ok_no_memory:
  assumes "well_linked me"
  shows "run_ok aware piped event [] args results True me (set_memory event args me)
           (refused True) []"
  unfolding run_ok_def
  using assms by (simp add: set_memory_wf set_memory_grows refused_def failed_def)

lemma run_ok_refused:
  assumes "well_linked me"
  shows "run_ok aware piped event (c # cs) args results True me (set_handled c h me)
           (refused True) []"
  unfolding run_ok_def
  using assms
  by (simp add: set_handled_wf set_handled_grows set_handled_stamp refused_def failed_def)

lemma run_ok_skip:
  assumes "run_ok True piped event cs args results direct me me' res new"
  shows "run_ok True piped event (c # cs) args results direct me me' res new"
  using assms unfolding run_ok_def by (simp add: list_emb_Cons)

lemma run_ok_type_error:
  assumes "well_linked me" and "apply_args args = None"
  shows "run_ok aware piped event (c # cs) args results direct me (set_handled c h me)
           (failed direct TypeError) []"
  unfolding run_ok_def
  using assms by (simp add: set_handled_wf set_handled_grows set_handled_stamp failed_def)

lemma run_ok_failure:
  assumes "well_linked me2" and "grows (set_handled c h me) me2"
    and "calls me2 = calls me @ [(c, as, out)]" and "memory me2 = memory me"
    and "\<forall>x < length (heap me). h_handled (heap me2 ! x) = h_handled (heap (set_handled c h me) ! x)"
    and "apply_args args = Some as"
    and "out = Throws e \<and> res = failed direct (HandlerFailure e) \<or>
         out = Rejects e \<and> res = Rejected (HandlerFailure e)"
  shows "run_ok aware piped event (c # cs) args results direct me me2 res [(c, as, out)]"
proof -
  have "grows me me2" using set_handled_grows assms(2) by (rule grows_trans)
  moreover have "\<forall>v. res \<noteq> Resolved v" using assms(7) by (auto simp: failed_def split: if_splits)
  moreover have "settled direct [(c, as, out)] res" using assms(7) by auto
  moreover have "\<forall>x < length (heap me). x \<notin> set (c # cs) \<longrightarrow>
      h_handled (heap me2 ! x) = h_handled (heap me ! x)"
    using assms(5) by (simp add: set_handled_stamp)
  moreover have "res \<noteq> Raised TypeError \<and> res \<noteq> Rejected TypeError"
    using assms(7) by (auto simp: failed_def split: if_splits)
  ultimately show ?thesis
    unfolding run_ok_def using assms(1,3,4,6) by simp
qed


lemma grows_length: "grows a b \<Longrightarrow> length (heap a) \<le> length (heap b)"
  by (simp add: grows_def)

lemma grows_dom: "grows a b \<Longrightarrow> handlers a e \<noteq> None \<Longrightarrow> handlers b e \<noteq> None"
  unfolding grows_def by blast

lemma run_ok_step:
  assumes me2: "well_linked me2" "grows (set_handled c h me) me2"
      "calls me2 = calls me @ [(c, as, Returns v)]" "memory me2 = memory me"
      "\<forall>x < length (heap me). h_handled (heap me2 ! x) = h_handled (heap (set_handled c h me) ! x)"
    and args: "apply_args args = Some as"
    and rest: "run_ok aware piped event cs (if piped \<and> v \<noteq> JUndefined then v else args)
                 (results @ [v]) False me2 me' res new"
  shows "run_ok aware piped event (c # cs) args results direct me me' res ((c, as, Returns v) # new)"
proof -
  let ?new = "(c, as, Returns v) # new"
  let ?args = "if piped \<and> v \<noteq> JUndefined then v else args"
  from rest have r: "well_linked me'" "grows me2 me'" "calls me' = calls me2 @ new"
    "settled False new res" "subseq (map fst new) cs"
    "\<not> aware \<longrightarrow> map fst new = take (length new) cs"
    "\<not> aware \<longrightarrow> (\<exists>v. res = Resolved v) \<longrightarrow> map fst new = cs"
    "\<not> piped \<longrightarrow> (\<forall>entry \<in> set new. apply_args ?args = Some (fst (snd entry)))"
    "\<not> piped \<longrightarrow> (\<forall>w. res = Resolved w \<longrightarrow> w = JArr ((results @ [v]) @ returned new))"
    "(\<exists>f. res = Raised f \<or> res = Rejected f) \<longrightarrow> memory me' = memory me2"
    "\<not> piped \<longrightarrow> res = Raised TypeError \<or> res = Rejected TypeError \<longrightarrow>
         apply_args ?args = None"
    "\<forall>w. res = Resolved w \<longrightarrow> (\<forall>e. e \<noteq> event \<longrightarrow> memory me' e = memory me2 e) \<and>
         (handlers me2 event \<noteq> None \<longrightarrow> memory me' event = Some (if piped then w else ?args))"
    "\<forall>x < length (heap me2). x \<notin> set cs \<longrightarrow> h_handled (heap me' ! x) = h_handled (heap me2 ! x)"
    unfolding run_ok_def by blast+
  have g1: "grows me me2" using set_handled_grows me2(2) by (rule grows_trans)
  then have g: "grows me me'" using r(2) by (rule grows_trans)
  have 1: "calls me' = calls me @ ?new" using r(3) me2(3) by simp
  have 2: "settled direct ?new res" using r(4) by simp
  have 3: "subseq (map fst ?new) (c # cs)" using r(5) by simp
  have 4: "\<not> aware \<longrightarrow> map fst ?new = take (length ?new) (c # cs)" using r(6) by simp
  have 5: "\<not> aware \<longrightarrow> (\<exists>v. res = Resolved v) \<longrightarrow> map fst ?new = c # cs" using r(7) by simp
  have 6: "\<not> piped \<longrightarrow> (\<forall>entry \<in> set ?new. apply_args args = Some (fst (snd entry)))"
    using r(8) args by auto
  have 7: "\<not> piped \<longrightarrow> (\<forall>w. res = Resolved w \<longrightarrow> w = JArr (results @ returned ?new))"
    using r(9) by simp
  have 8: "(\<exists>f. res = Raised f \<or> res = Rejected f) \<longrightarrow> memory me' = memory me"
    using r(10) me2(4) by simp
  have 9: "\<forall>w. res = Resolved w \<longrightarrow> (\<forall>e. e \<noteq> event \<longrightarrow> memory me' e = memory me e) \<and>
         (handlers me event \<noteq> None \<longrightarrow> memory me' event = Some (if piped then w else args))"
  proof (intro allI impI conjI)
    fix w e assume "res = Resolved w" "e \<noteq> event"
    with r(12) me2(4) show "memory me' e = memory me e" by simp
  next
    fix w assume w: "res = Resolved w" and "handlers me event \<noteq> None"
    then have "handlers me2 event \<noteq> None" using grows_dom[OF g1] by blast
    with r(12) w show "memory me' event = Some (if piped then w else args)" by auto
  qed
  have 10: "\<forall>x < length (heap me). x \<notin> set (c # cs) \<longrightarrow> h_handled (heap me' ! x) = h_handled (heap me ! x)"
  proof (intro allI impI)
    fix x assume x: "x < length (heap me)" "x \<notin> set (c # cs)"
    then have "x < length (heap me2)" using grows_length[OF g1] by simp
    with r(13) x have "h_handled (heap me' ! x) = h_handled (heap me2 ! x)" by simp
    also from me2(5) x have "\<dots> = h_handled (heap (set_handled c h me) ! x)" by simp
    also from x have "\<dots> = h_handled (heap me ! x)" by (simp add: set_handled_stamp)
    finally show "h_handled (heap me' ! x) = h_handled (heap me ! x)" .
  qed
  have 11: "\<not> piped \<longrightarrow> res = Raised TypeError \<or> res = Rejected TypeError \<longrightarrow>
         apply_args args = None"
    using r(11) by auto
  show ?thesis
    unfolding run_ok_def using r(1) g 1 2 3 4 5 6 7 8 9 10 11 by blast
qed

lemma gen_next_spec:
  assumes "well_linked me" and "\<forall>c \<in> set cs. c < length (heap me)" and "no_dispatch env"
    and "direct \<or> identical h h" and "direct \<or> piped \<or> args \<noteq> JNaN"
  shows "\<exists>me' res new. gen_next aware piped nest env event cs h args results direct me = Some (me', res) \<and>
           run_ok aware piped event cs args results direct me me' res new"
  using assms(1,2,4,5)
proof (induction cs arbitrary: args results direct me)
  case Nil
  show ?case
  proof (cases "piped \<or> args \<noteq> JNaN")
    case True
    then have "gen_next aware piped nest env event [] h args results direct me =
        Some (set_memory event args me, Resolved (if piped then args else JArr results))"
      by auto
    with Nil.prems(1) show ?thesis using run_ok_done by fastforce
  next
    case False
    with Nil.prems(4) have d: "direct" by simp
    from False have "gen_next aware piped nest env event [] h args results direct me =
        Some (set_memory event args me, refused direct)"
      by auto
    with Nil.prems(1) d show ?thesis using run_ok_no_memory by fastforce
  qed
next
  case (Cons c cs)
  show ?case
  proof (cases "aware \<and> blocked env me c")
    case True
    from Cons.IH[of me direct args results] Cons.prems obtain me' res new where
      "gen_next aware piped nest env event cs h args results direct me = Some (me', res)"
      "run_ok aware piped event cs args results direct me me' res new" by auto
    with True show ?thesis using run_ok_skip by fastforce
  next
    case False
    then have nb: "(aware \<and> blocked env me c) = False" by simp
    let ?me1 = "set_handled c h me"
    have wl1: "well_linked ?me1" using Cons.prems(1) by (rule set_handled_wf)
    show ?thesis
    proof (cases "identical h h")
      case guard: False
      with Cons.prems(3) have d: "direct" by simp
      from guard nb have "gen_next aware piped nest env event (c # cs) h args results direct me =
          Some (?me1, refused direct)" by auto
      with Cons.prems(1) d show ?thesis using run_ok_refused by fastforce
    next
      case guard: True
      show ?thesis
      proof (cases "apply_args args")
        case None
        with nb guard Cons.prems(1) show ?thesis
          using run_ok_type_error[of me args aware piped event c cs results direct h] by auto
      next
        case (Some as)
        then have nan: "args \<noteq> JNaN" by auto
        from Cons.prems(2) have "c < length (heap ?me1)" by simp
        from call_spec[OF wl1 this assms(3), of nest as] obtain me2 out where
          call: "call nest env c as ?me1 = Some (me2, out)" and wl2: "well_linked me2"
          and g2: "grows ?me1 me2" and c2: "calls me2 = calls me @ [(c, as, out)]"
          and m2: "memory me2 = memory me"
          and s2: "\<forall>x < length (heap me). h_handled (heap me2 ! x) = h_handled (heap ?me1 ! x)"
          by auto
        show ?thesis
        proof (cases out)
          case (Returns v)
          let ?args = "if piped \<and> v \<noteq> JUndefined then v else args"
          have valid: "\<forall>x \<in> set cs. x < length (heap me2)"
            using Cons.prems(2) grows_length[OF g2] by auto
          have a: "False \<or> piped \<or> ?args \<noteq> JNaN" using nan by simp
          have i: "False \<or> identical h h" using guard by simp
          from Cons.IH[OF wl2 valid i a, of "results @ [v]"] obtain me' res new where
            run: "gen_next aware piped nest env event cs h ?args (results @ [v]) False me2 = Some (me', res)"
            and ok: "run_ok aware piped event cs ?args (results @ [v]) False me2 me' res new"
            by blast
          have "run_ok aware piped event (c # cs) args results direct me me' res ((c, as, Returns v) # new)"
            using wl2 g2 c2[unfolded Returns] m2 s2 Some ok by (rule run_ok_step)
          moreover have "gen_next aware piped nest env event (c # cs) h args results direct me = Some (me', res)"
            using nb guard Some call Returns run by auto
          ultimately show ?thesis by blast
        next
          case (Throws e)
          have "run_ok aware piped event (c # cs) args results direct me me2
                  (failed direct (HandlerFailure e)) [(c, as, out)]"
            using wl2 g2 c2 m2 s2 Some by (rule run_ok_failure) (simp add: Throws)
          moreover have "gen_next aware piped nest env event (c # cs) h args results direct me =
              Some (me2, failed direct (HandlerFailure e))"
            using nb guard Some call Throws by auto
          ultimately show ?thesis by blast
        next
          case (Rejects e)
          have "run_ok aware piped event (c # cs) args results direct me me2
                  (Rejected (HandlerFailure e)) [(c, as, out)]"
            using wl2 g2 c2 m2 s2 Some by (rule run_ok_failure) (simp add: Rejects)
          moreover have "gen_next aware piped nest env event (c # cs) h args results direct me =
              Some (me2, Rejected (HandlerFailure e))"
            using nb guard Some call Rejects by auto
          ultimately show ?thesis by blast
        qed
      qed
    qed
  qed
qed


section \<open>Dispatch and replay as runs of the loop\<close>

lemma reemit_loop_path:
  "path hp first rs \<Longrightarrow> length rs \<le> fuel \<Longrightarrow>
   reemit_loop fuel hp handled senile cx f first =
     Some (filter (\<lambda>r. replays handled senile cx f (hp ! r)) rs)"
proof (induction hp first rs arbitrary: fuel rule: path.induct)
  case (1 hp first)
  then show ?case by simp
next
  case (2 hp first r)
  then show ?case by (cases fuel) (auto simp: look_def replays_def)
next
  case (3 hp first r s rs)
  then show ?case by (cases fuel) (auto simp: look_def replays_def)
qed

lemma members_snapshot:
  assumes "well_linked me" and "handlers me event = Some c" and "c_head c = Some first"
  shows "emit_loop (length (heap me)) (heap me) first = Some (members me event)"
    and "reemit_loop (length (heap me)) (heap me) handled senile cx f first =
           Some (filter (\<lambda>r. replays handled senile cx f (heap me ! r)) (members me event))"
proof -
  from wf_chain_ok[OF assms(1), of event] assms(2,3)
  have p: "path (heap me) first (members me event)" by simp
  show "emit_loop (length (heap me)) (heap me) first = Some (members me event)"
    using p path_length[OF p] by (rule emit_loop_path)
  show "reemit_loop (length (heap me)) (heap me) handled senile cx f first =
           Some (filter (\<lambda>r. replays handled senile cx f (heap me ! r)) (members me event))"
    using p path_length[OF p] by (rule reemit_loop_path)
qed

lemma members_no_head:
  assumes "well_linked me" and "handlers me event = Some c" and "c_head c = None"
  shows "members me event = []"
  using assms by (simp add: members_def)

lemma members_no_chain: "handlers me event = None \<Longrightarrow> members me event = []"
  by (simp add: members_def)

lemma ensure_simps [simp]:
  "heap (ensure event me) = heap me"
  "calls (ensure event me) = calls me"
  "world (ensure event me) = world me"
  "handlers (ensure event me) event \<noteq> None"
  by (simp_all add: ensure_def split: option.splits)

lemma ensure_epoch [simp]: "epoch (ensure event me) = epoch me"
  by (auto simp: ensure_def epoch_def new_chain_def fun_eq_iff split: option.splits)

lemma ensure_memory [simp]: "memory (ensure event me) = memory me"
  by (auto simp: ensure_def memory_def new_chain_def fun_eq_iff split: option.splits)

lemma ensure_members [simp]: "members (ensure event me) = members me"
  by (auto simp: ensure_def members_def new_chain_def fun_eq_iff split: option.splits)

lemma ensure_wf: "well_linked me \<Longrightarrow> well_linked (ensure event me)"
proof (rule well_linkedI[where L = "members me"])
  fix e assume "well_linked me"
  then have "chain_ok (heap me) (handlers me e) (members me e)" by (rule wf_chain_ok)
  then show "chain_ok (heap (ensure event me)) (handlers (ensure event me) e) (members me e)"
    by (cases "handlers me event") (auto simp: ensure_def new_chain_def)
next
  fix e e' :: string assume "well_linked me" "e \<noteq> e'"
  then show "set (members me e) \<inter> set (members me e') = {}" unfolding well_linked_def by blast
qed

lemma bump_simps [simp]:
  "heap (bump event me) = heap me"
  "calls (bump event me) = calls me"
  "world (bump event me) = world me"
  "(handlers (bump event me) e \<noteq> None) = (handlers me e \<noteq> None)"
  by (simp_all add: bump_def)

lemma bump_epoch:
  "epoch (bump event me) e =
     (if e = event \<and> handlers me event \<noteq> None then Some (increment (epoch me e)) else epoch me e)"
  by (auto simp: bump_def epoch_def split: option.splits)

lemma bump_memory [simp]: "memory (bump event me) = memory me"
  by (auto simp: bump_def memory_def fun_eq_iff split: option.splits)

lemma bump_members [simp]: "members (bump event me) = members me"
  by (auto simp: bump_def members_def fun_eq_iff split: option.splits)

lemma bump_wf: "well_linked me \<Longrightarrow> well_linked (bump event me)"
proof (rule well_linkedI[where L = "members me"])
  fix e assume "well_linked me"
  then have "chain_ok (heap me) (handlers me e) (members me e)" by (rule wf_chain_ok)
  then show "chain_ok (heap (bump event me)) (handlers (bump event me) e) (members me e)"
    by (cases "handlers me e") (auto simp: bump_def split: option.splits)
next
  fix e e' :: string assume "well_linked me" "e \<noteq> e'"
  then show "set (members me e) \<inter> set (members me e') = {}" unfolding well_linked_def by blast
qed

lemma emit_run:
  assumes "well_linked me" and "select_runner RE_RUNNER_exec env event = Inr (name, Some r)"
  shows "emit_at nest env event args me =
           run nest r env name (members me name) (Some (increment (epoch me name))) (JArr args)
             (bump name (ensure name me))"
proof (cases "handlers me name")
  case None
  then show ?thesis using assms(2)
    by (simp add: emit_at_def members_no_chain epoch_def ensure_def bump_def new_chain_def)
next
  case (Some c)
  show ?thesis
  proof (cases "c_head c")
    case None
    with Some assms show ?thesis
      by (simp add: emit_at_def members_no_head epoch_def ensure_def bump_def)
  next
    case (Some first)
    with \<open>handlers me name = Some c\<close> assms show ?thesis
      by (simp add: emit_at_def members_snapshot(1) epoch_def ensure_def bump_def)
  qed
qed

lemma replay_run:
  assumes "well_linked me" and "select_runner re env event = Inr (name, Some r)"
  shows "replay nest re env event senile cx f me =
           run nest r env name
             (filter (\<lambda>x. replays (epoch me name) senile cx f (heap me ! x)) (members me name))
             (epoch me name) (case memory me name of None \<Rightarrow> JUndefined | Some m \<Rightarrow> m)
             (ensure name me)"
proof (cases "handlers me name")
  case None
  then show ?thesis using assms(2)
    by (simp add: replay_def members_no_chain epoch_def memory_def ensure_def new_chain_def)
next
  case (Some c)
  show ?thesis
  proof (cases "c_head c")
    case None
    with Some assms show ?thesis
      by (simp add: replay_def members_no_head epoch_def memory_def ensure_def)
  next
    case (Some first)
    with \<open>handlers me name = Some c\<close> assms show ?thesis
      by (simp add: replay_def members_snapshot(2) epoch_def memory_def ensure_def)
  qed
qed

lemma emit_no_default:
  "select_runner RE_RUNNER_exec env event = Inr (name, None) \<Longrightarrow> well_linked me \<Longrightarrow>
   emit_at nest env event args me = Some (ensure name me, Raised TypeError)"
  by (cases "handlers me name"; cases "c_head (the (handlers me name))")
     (auto simp: emit_at_def ensure_def members_snapshot(1))

lemma replay_no_default:
  "select_runner re env event = Inr (name, None) \<Longrightarrow> well_linked me \<Longrightarrow>
   replay nest re env event senile cx f me = Some (ensure name me, Raised TypeError)"
  by (cases "handlers me name"; cases "c_head (the (handlers me name))")
     (auto simp: replay_def ensure_def members_snapshot(2))

lemma emit_raise:
  "select_runner RE_RUNNER_exec env event = Inl e \<Longrightarrow>
   emit_at nest env event args me = Some (me, Raised e)"
  by (simp add: emit_at_def)

lemma replay_raise:
  "select_runner re env event = Inl e \<Longrightarrow>
   replay nest re env event senile cx f me = Some (me, Raised e)"
  by (simp add: replay_def)


lemma run_ok_foreign:
  "well_linked me \<Longrightarrow> run_ok False False event cs args [] True me me (Foreign name) []"
  unfolding run_ok_def by (simp add: failed_def refused_def)

lemma run_spec:
  assumes "well_linked me" and "\<forall>c \<in> set cs. c < length (heap me)" and "no_dispatch env"
  shows "\<exists>me' res new. run nest r env event cs h args me = Some (me', res) \<and>
           run_ok (is_aware r) (is_piped r) event cs args [] True me me' res new"
proof (cases "\<exists>name. r = Inherited name")
  case True
  then obtain name where r: "r = Inherited name" by blast
  then have "run nest r env event cs h args me = Some (me, Foreign name)" by simp
  moreover have "run_ok (is_aware r) (is_piped r) event cs args [] True me me (Foreign name) []"
    using assms(1) r by (simp add: is_aware_def is_piped_def run_ok_foreign)
  ultimately show ?thesis by blast
next
  case False
  then have "\<forall>name. r \<noteq> Inherited name" by blast
  then have "run nest r env event cs h args me =
      gen_next (is_aware r) (is_piped r) nest env event cs h args [] True me" by (rule run_gen)
  moreover have "\<exists>me' res new.
      gen_next (is_aware r) (is_piped r) nest env event cs h args [] True me = Some (me', res) \<and>
      run_ok (is_aware r) (is_piped r) event cs args [] True me me' res new"
    using assms by (rule gen_next_spec) simp_all
  ultimately show ?thesis by simp
qed

lemma emit_spec:
  assumes "well_linked me" and "select_runner RE_RUNNER_exec env event = Inr (name, Some r)"
    and "no_dispatch env"
  shows "\<exists>me' res new. emit_at nest env event args me = Some (me', res) \<and>
           run_ok (is_aware r) (is_piped r) name (members me name) (JArr args) [] True
             (bump name (ensure name me)) me' res new"
proof -
  have "well_linked (bump name (ensure name me))"
    using assms(1) by (intro bump_wf ensure_wf)
  moreover have "\<forall>c \<in> set (members me name). c < length (heap (bump name (ensure name me)))"
    using members_valid[OF assms(1)] by simp
  ultimately show ?thesis
    unfolding emit_run[OF assms(1,2)] using assms(3) by (rule run_spec)
qed

lemma replay_spec:
  assumes "well_linked me" and "select_runner re env event = Inr (name, Some r)"
    and "no_dispatch env"
  shows "\<exists>me' res new. replay nest re env event senile cx f me = Some (me', res) \<and>
           run_ok (is_aware r) (is_piped r) name
             (filter (\<lambda>x. replays (epoch me name) senile cx f (heap me ! x)) (members me name))
             (case memory me name of None \<Rightarrow> JUndefined | Some m \<Rightarrow> m) [] True
             (ensure name me) me' res new"
proof -
  have "well_linked (ensure name me)"
    using assms(1) by (rule ensure_wf)
  moreover have "\<forall>c \<in> set (filter (\<lambda>x. replays (epoch me name) senile cx f (heap me ! x)) (members me name)).
      c < length (heap (ensure name me))"
    using members_valid[OF assms(1)] by auto
  ultimately show ?thesis
    unfolding replay_run[OF assms(1,2)] using assms(3) by (rule run_spec)
qed

lemma select_runner_cases:
  obtains (raise) rn where "select_runner re env event = Inl (UnknownRunner rn)"
  | (no_default) name where "select_runner re env event = Inr (name, None)"
  | (dispatch) name r where "select_runner re env event = Inr (name, Some r)"
proof (cases "re event")
  case None
  then have "select_runner re env event = Inr (event, runners env ''default'')"
    by (simp add: select_runner_def)
  then show ?thesis using no_default dispatch by (cases "runners env ''default''") auto
next
  case (Some m)
  obtain name rn where m: "m = (name, rn)" by (cases m)
  show ?thesis
  proof (cases "runners env rn")
    case None
    with Some m have "select_runner re env event = Inl (UnknownRunner rn)"
      by (simp add: select_runner_def)
    then show ?thesis by (rule raise)
  next
    case (Some r)
    with \<open>re event = Some m\<close> m have "select_runner re env event = Inr (name, Some r)"
      by (simp add: select_runner_def)
    then show ?thesis by (rule dispatch)
  qed
qed

text \<open>The state, result and log of every emit.\<close>

lemma emit_total:
  assumes "well_linked me" and "no_dispatch env"
  shows "\<exists>me' res. emit_at nest env event args me = Some (me', res) \<and> well_linked me' \<and>
     (\<forall>e. epoch me' e =
        (case select_runner RE_RUNNER_exec env event of
           Inr (name, Some r) \<Rightarrow> if e = name then Some (increment (epoch me e)) else epoch me e
         | _ \<Rightarrow> epoch me e)) \<and>
     ((\<exists>f. res = Raised f \<or> res = Rejected f) \<longrightarrow> memory me' = memory me)"
proof (cases rule: select_runner_cases[of RE_RUNNER_exec env event])
  case (raise rn)
  with assms show ?thesis by (simp add: emit_raise)
next
  case (no_default name)
  with assms show ?thesis by (simp add: emit_no_default ensure_wf)
next
  case (dispatch name r)
  from emit_spec[OF assms(1) dispatch assms(2), of nest args] obtain me' res new where
    e: "emit_at nest env event args me = Some (me', res)"
    and ok: "run_ok (is_aware r) (is_piped r) name (members me name) (JArr args) [] True
             (bump name (ensure name me)) me' res new" by blast
  from ok have g: "grows (bump name (ensure name me)) me'" and wl: "well_linked me'"
    and m: "(\<exists>f. res = Raised f \<or> res = Rejected f) \<longrightarrow> memory me' = memory (bump name (ensure name me))"
    unfolding run_ok_def by blast+
  from g have "epoch me' e = epoch (bump name (ensure name me)) e" for e
    by (simp add: grows_def)
  then have "epoch me' e = (if e = name then Some (increment (epoch me e)) else epoch me e)" for e
    by (simp add: bump_epoch)
  with e wl m dispatch show ?thesis by simp
qed

lemma replay_total:
  assumes "well_linked me" and "no_dispatch env"
  shows "\<exists>me' res. replay nest re env event senile cx f me = Some (me', res) \<and> well_linked me' \<and>
     epoch me' = epoch me \<and>
     ((\<exists>f. res = Raised f \<or> res = Rejected f) \<longrightarrow> memory me' = memory me)"
proof (cases rule: select_runner_cases[of re env event])
  case (raise rn)
  with assms show ?thesis by (simp add: replay_raise)
next
  case (no_default name)
  with assms show ?thesis by (simp add: replay_no_default ensure_wf)
next
  case (dispatch name r)
  from replay_spec[OF assms(1) dispatch assms(2), of nest senile cx f] obtain me' res new where
    e: "replay nest re env event senile cx f me = Some (me', res)"
    and ok: "run_ok (is_aware r) (is_piped r) name
             (filter (\<lambda>x. replays (epoch me name) senile cx f (heap me ! x)) (members me name))
             (case memory me name of None \<Rightarrow> JUndefined | Some m \<Rightarrow> m) [] True
             (ensure name me) me' res new" by blast
  from ok have g: "grows (ensure name me) me'" and wl: "well_linked me'"
    and m: "(\<exists>f. res = Raised f \<or> res = Rejected f) \<longrightarrow> memory me' = memory (ensure name me)"
    unfolding run_ok_def by blast+
  from g have "epoch me' e = epoch (ensure name me) e" for e
    by (simp add: grows_def)
  then have "epoch me' = epoch me" by (simp add: fun_eq_iff)
  with e wl m show ?thesis by simp
qed


lemma untouched_epoch: "untouched a b \<Longrightarrow> epoch b = epoch a"
  by (simp add: untouched_def grows_def fun_eq_iff)

lemma untouched_memory: "untouched a b \<Longrightarrow> memory b = memory a"
  by (simp add: untouched_def fun_eq_iff)

lemma increment_no_lower: "\<exists>n'. n \<le> n' \<and> increment (Some (Num n)) = Num n'"
  by (simp add: increment_def)

lemma no_lower_refl [simp]: "no_lower me me"
  by (simp add: no_lower_def)

lemma no_lower_same: "epoch me' = epoch me \<Longrightarrow> no_lower me me'"
  by (simp add: no_lower_def)

lemma no_lower_trans: "no_lower a b \<Longrightarrow> no_lower b c \<Longrightarrow> no_lower a c"
  unfolding no_lower_def by (meson order_trans)

lemma serve_spec:
  assumes "well_linked me" and "no_dispatch env"
  shows "\<exists>me'. serve env q me = Some me' \<and> well_linked me' \<and> no_lower me me'"
proof (cases q)
  case (On event cx f)
  show ?thesis
  proof (cases f)
    case None
    with On assms show ?thesis by (simp add: on_def)
  next
    case (Some g)
    have "epoch (link_handler event cx g me) = epoch me"
      using link_handler_untouched by (rule untouched_epoch)
    with On Some assms show ?thesis by (simp add: on_def link_handler_wf no_lower_same)
  qed
next
  case (Off event cx f)
  from off_spec[OF assms(1), of event cx f] obtain me' where
    "off event cx f me = Some me'" "well_linked me'" "untouched me me'" by blast
  with Off show ?thesis using untouched_epoch[of me me'] by (simp add: no_lower_same)
next
  case (Emit event args)
  from emit_total[OF assms, of "nested (stack env) env" event args] obtain me' res where
    e: "emit env event args me = Some (me', res)" "well_linked me'"
    and ep: "\<forall>e. epoch me' e =
        (case select_runner RE_RUNNER_exec env event of
           Inr (name, Some r) \<Rightarrow> if e = name then Some (increment (epoch me e)) else epoch me e
         | _ \<Rightarrow> epoch me e)" unfolding emit_def by blast
  have "no_lower me me'"
    unfolding no_lower_def
  proof (intro allI impI)
    fix e n assume n: "epoch me e = Some (Num n)"
    show "\<exists>n'. n \<le> n' \<and> epoch me' e = Some (Num n')"
      using ep n increment_no_lower[of n]
      by (cases rule: select_runner_cases[of RE_RUNNER_exec env event]) auto
  qed
  with Emit e show ?thesis by simp
next
  case (Reemit event senile cx f)
  from replay_total[OF assms, of "nested (stack env) env" RE_RUNNER_exec event senile cx f]
  obtain me' res where
    "reemit env event senile cx f me = Some (me', res)" "well_linked me'" "epoch me' = epoch me"
    unfolding reemit_def by blast
  with Reemit show ?thesis by (simp add: no_lower_same)
next
  case (Peek event)
  with assms show ?thesis by simp
qed

lemma serve_all_spec:
  "well_linked me \<Longrightarrow> no_dispatch env \<Longrightarrow>
   \<exists>me'. serve_all env qs me = Some me' \<and> well_linked me' \<and> no_lower me me'"
proof (induction qs arbitrary: me)
  case Nil
  then show ?case by simp
next
  case (Cons q qs)
  from serve_spec[OF Cons.prems, of q] obtain me1 where
    1: "serve env q me = Some me1" "well_linked me1" "no_lower me me1" by blast
  from Cons.IH[OF 1(2) Cons.prems(2)] obtain me' where
    2: "serve_all env qs me1 = Some me'" "well_linked me'" "no_lower me1 me'" by blast
  from 1(3) 2(3) have "no_lower me me'" by (rule no_lower_trans)
  with 1(1) 2(1,2) show ?case by simp
qed


lemma invoked_append: "calls me' = calls me @ new \<Longrightarrow> invoked me me' = new"
  by (simp add: invoked_def)

lemma invoked_same [simp]: "calls me' = calls me \<Longrightarrow> invoked me me' = []"
  by (simp add: invoked_def)

lemma run_ok_invoked:
  "run_ok aware piped event cs args results direct me me' res new \<Longrightarrow> calls me0 = calls me \<Longrightarrow>
   invoked me0 me' = new"
  by (simp add: run_ok_def invoked_def)

lemma subseq_subset: "subseq xs ys \<Longrightarrow> set xs \<subseteq> set ys"
  by (induction rule: list_emb.induct) auto


lemma settled_split:
  "settled d (pre @ (r, a, out) # post) res \<Longrightarrow>
   (\<forall>e. out = Throws e \<longrightarrow> post = [] \<and> res = failed (d \<and> pre = []) (HandlerFailure e)) \<and>
   (\<forall>e. out = Rejects e \<longrightarrow> post = [] \<and> res = Rejected (HandlerFailure e))"
proof (induction pre arbitrary: d)
  case Nil
  then show ?case by (cases out) auto
next
  case (Cons x pre)
  obtain r' a' out' where x: "x = (r', a', out')" by (cases x)
  show ?case
  proof (cases out')
    case (Returns v)
    with Cons.prems x have "settled False (pre @ (r, a, out) # post) res" by simp
    from Cons.IH[OF this] show ?thesis by (simp add: failed_def)
  next
    case (Throws e)
    with Cons.prems x show ?thesis by simp
  next
    case (Rejects e)
    with Cons.prems x show ?thesis by simp
  qed
qed

lemma settled_returns:
  "settled d new res \<Longrightarrow> \<forall>entry \<in> set new. \<exists>v. snd (snd entry) = Returns v \<Longrightarrow>
   (\<exists>v. res = Resolved v) \<or> res = Raised TypeError \<or> res = Rejected TypeError \<or>
   (new = [] \<and> d \<and> (res = Plain (JBool False) \<or> (\<exists>name. res = Foreign name)))"
proof (induction new arbitrary: d)
  case Nil
  then show ?case by (auto simp: failed_def refused_def split: if_splits)
next
  case (Cons x new)
  obtain r a out where x: "x = (r, a, out)" by (cases x)
  with Cons.prems(2) obtain v where "out = Returns v" by auto
  with Cons.prems x have "settled False new res" "\<forall>entry \<in> set new. \<exists>v. snd (snd entry) = Returns v"
    by simp_all
  from Cons.IH[OF this] show ?case by auto
qed

lemma settled_resolved:
  "settled d new (Resolved v) \<Longrightarrow>
   length (returned new) = length new \<and> (\<forall>entry \<in> set new. \<exists>v. snd (snd entry) = Returns v)"
proof (induction new arbitrary: d)
  case Nil
  then show ?case by simp
next
  case (Cons x new)
  obtain r a out where x: "x = (r, a, out)" by (cases x)
  show ?case
  proof (cases out)
    case (Returns w)
    with Cons.prems x have "settled False new (Resolved v)" by simp
    from Cons.IH[OF this] x Returns show ?thesis by simp
  next
    case (Throws e)
    with Cons.prems x show ?thesis by (simp add: failed_def split: if_splits)
  next
    case (Rejects e)
    with Cons.prems x show ?thesis by simp
  qed
qed

lemma emit_log:
  assumes "well_linked me" and "no_dispatch env"
  shows "\<exists>me' res. emit_at nest env event args me = Some (me', res) \<and>
           (invoked me me' = [] \<or> settled True (invoked me me') res)"
proof (cases rule: select_runner_cases[of RE_RUNNER_exec env event])
  case (raise rn)
  then show ?thesis by (simp add: emit_raise)
next
  case (no_default name)
  with assms show ?thesis by (simp add: emit_no_default)
next
  case (dispatch name r)
  from emit_spec[OF assms(1) dispatch assms(2), of nest args] obtain me' res new where
    e: "emit_at nest env event args me = Some (me', res)"
    and ok: "run_ok (is_aware r) (is_piped r) name (members me name) (JArr args) [] True
             (bump name (ensure name me)) me' res new" by blast
  have "invoked me me' = new" using ok by (rule run_ok_invoked) simp
  moreover from ok have "settled True new res" unfolding run_ok_def by blast
  ultimately show ?thesis using e by simp
qed

lemma replay_log:
  assumes "well_linked me" and "no_dispatch env"
  shows "\<exists>me' res. replay nest re env event senile cx f me = Some (me', res) \<and>
           (invoked me me' = [] \<or> settled True (invoked me me') res)"
proof (cases rule: select_runner_cases[of re env event])
  case (raise rn)
  then show ?thesis by (simp add: replay_raise)
next
  case (no_default name)
  with assms show ?thesis by (simp add: replay_no_default)
next
  case (dispatch name r)
  from replay_spec[OF assms(1) dispatch assms(2), of nest senile cx f] obtain me' res new where
    e: "replay nest re env event senile cx f me = Some (me', res)"
    and ok: "run_ok (is_aware r) (is_piped r) name
             (filter (\<lambda>x. replays (epoch me name) senile cx f (heap me ! x)) (members me name))
             (case memory me name of None \<Rightarrow> JUndefined | Some m \<Rightarrow> m) [] True
             (ensure name me) me' res new" by blast
  have "invoked me me' = new" using ok by (rule run_ok_invoked) simp
  moreover from ok have "settled True new res" unfolding run_ok_def by blast
  ultimately show ?thesis using e by simp
qed

lemma log_failure:
  assumes "log = [] \<or> settled True log res"
  shows "\<forall>pre r a out post. log = pre @ (r, a, out) # post \<longrightarrow>
           (\<forall>e. out = Throws e \<longrightarrow>
              post = [] \<and>
              res = (if pre = [] then Raised (HandlerFailure e) else Rejected (HandlerFailure e))) \<and>
           (\<forall>e. out = Rejects e \<longrightarrow> post = [] \<and> res = Rejected (HandlerFailure e))"
proof (intro allI impI)
  fix pre r a out post assume l: "log = pre @ (r, a, out) # post"
  with assms have "settled True (pre @ (r, a, out) # post) res" by auto
  from settled_split[OF this]
  show "(\<forall>e. out = Throws e \<longrightarrow>
              post = [] \<and>
              res = (if pre = [] then Raised (HandlerFailure e) else Rejected (HandlerFailure e))) \<and>
           (\<forall>e. out = Rejects e \<longrightarrow> post = [] \<and> res = Rejected (HandlerFailure e))"
    by (simp add: failed_def)
qed


lemma RE_PHASE_test_iff:
  "RE_PHASE_test s \<longleftrightarrow> s \<in> {''initialize'', ''initialized'', ''finalize'', ''finalized''}"
  by (auto simp: RE_PHASE_test_def)

lemma blocked_stable:
  assumes "grows me me'" and "c < length (heap me)"
    and "\<forall>w w' x. phase env w x = phase env w' x"
  shows "blocked env me' c = blocked env me c"
proof -
  from assms(1,2) have "c < length (heap me')" "h_context (heap me' ! c) = h_context (heap me ! c)"
    by (auto simp: grows_def)
  moreover from assms(3) have "phase env (world me') x = phase env (world me) x" for x by blast
  ultimately show ?thesis using assms(2)
    by (simp add: blocked_def look_def split: option.splits)
qed

lemma gen_next_filter:
  assumes "well_linked me" and "\<forall>c \<in> set cs. c < length (heap me)"
    and "\<forall>w w' x. phase env w x = phase env w' x" and "no_dispatch env"
  shows "gen_next True piped nest env event cs h args results direct me =
         gen_next False piped nest env event (filter (\<lambda>c. \<not> blocked env me c) cs) h args results direct me"
  using assms(1,2)
proof (induction cs arbitrary: args results direct me)
  case Nil
  then show ?case by simp
next
  case (Cons c cs)
  show ?case
  proof (cases "blocked env me c")
    case True
    with Cons.IH[of me args results direct] Cons.prems show ?thesis by simp
  next
    case False
    let ?me1 = "set_handled c h me"
    have wl1: "well_linked ?me1" using Cons.prems(1) by (rule set_handled_wf)
    show ?thesis
    proof (cases "identical h h")
      case guard: False
      with False show ?thesis by simp
    next
      case guard: True
      show ?thesis
      proof (cases "apply_args args")
        case None
        with False guard show ?thesis by simp
      next
        case (Some as)
        from Cons.prems(2) have "c < length (heap ?me1)" by simp
        from call_spec[OF wl1 this assms(4), of nest as] obtain me2 out where
          call: "call nest env c as ?me1 = Some (me2, out)" and wl2: "well_linked me2"
          and g2: "grows ?me1 me2" by auto
        have g: "grows me me2" using set_handled_grows g2 by (rule grows_trans)
        have valid2: "\<forall>x \<in> set cs. x < length (heap me2)"
          using Cons.prems(2) grows_length[OF g] by auto
        have same: "filter (\<lambda>x. \<not> blocked env me2 x) cs = filter (\<lambda>x. \<not> blocked env me x) cs"
        proof (rule filter_cong[OF refl])
          fix x assume "x \<in> set cs"
          with Cons.prems(2) have "x < length (heap me)" by simp
          from blocked_stable[OF g this assms(3)]
          show "(\<not> blocked env me2 x) = (\<not> blocked env me x)" by simp
        qed
        show ?thesis
        proof (cases out)
          case (Returns v)
          from Cons.IH[OF wl2 valid2, of "if piped \<and> v \<noteq> JUndefined then v else args" "results @ [v]" False]
          show ?thesis using False guard Some call Returns same by simp
        next
          case (Throws e)
          with False guard Some call show ?thesis by simp
        next
          case (Rejects e)
          with False guard Some call show ?thesis by simp
        qed
      qed
    qed
  qed
qed


lemma skip_blocked:
  "blocked env st c \<Longrightarrow>
   hub_sequence_next nest env event (c # cs) h args results d st =
     hub_sequence_next nest env event cs h args results d st \<and>
   pipeline_next nest env event (c # cs) h args d st = pipeline_next nest env event cs h args d st"
  by simp

lemma replays_fields:
  "h_callback h' = h_callback h \<Longrightarrow> h_context h' = h_context h \<Longrightarrow> h_handled h' = h_handled h \<Longrightarrow>
   replays n senile cx f h' = replays n senile cx f h"
  by (simp add: replays_def mismatch_def)


lemma gen_next_guarded:
  "identical h h \<Longrightarrow> piped \<or> args \<noteq> JNaN \<Longrightarrow>
   gen_next aware piped nest env event cs h args results direct me = Some (me', res) \<Longrightarrow>
   (\<forall>v. res \<noteq> Plain v) \<and> (\<forall>n. res \<noteq> Foreign n)"
proof (induction cs arbitrary: args results direct me)
  case Nil
  then show ?case by (auto split: if_splits)
next
  case (Cons c cs)
  show ?case
  proof (cases "aware \<and> blocked env me c")
    case True
    with Cons.prems(3) have "gen_next aware piped nest env event cs h args results direct me = Some (me', res)"
      by simp
    from Cons.IH[OF Cons.prems(1,2) this] show ?thesis .
  next
    case False
    then have nb: "(aware \<and> blocked env me c) = False" by simp
    show ?thesis
    proof (cases "apply_args args")
      case None
      with nb Cons.prems(1,3) show ?thesis by (auto simp: failed_def split: if_splits)
    next
      case (Some as)
      then have nan: "args \<noteq> JNaN" by auto
      show ?thesis
      proof (cases "call nest env c as (set_handled c h me)")
        case None
        with nb Some Cons.prems(1,3) show ?thesis by auto
      next
        case call: (Some p)
        obtain me2 out where p: "p = (me2, out)" by (cases p)
        show ?thesis
        proof (cases out)
          case (Returns v)
          let ?args = "if piped \<and> v \<noteq> JUndefined then v else args"
          from nb Some call p Returns Cons.prems(1,3)
          have run: "gen_next aware piped nest env event cs h ?args (results @ [v]) False me2 = Some (me', res)"
            by auto
          have "piped \<or> ?args \<noteq> JNaN" using nan by simp
          from Cons.IH[OF Cons.prems(1) this run] show ?thesis .
        next
          case (Throws e)
          with nb Some call p Cons.prems(1,3) show ?thesis by (auto simp: failed_def split: if_splits)
        next
          case (Rejects e)
          with nb Some call p Cons.prems(1,3) show ?thesis by auto
        qed
      qed
    qed
  qed
qed

section \<open>Counters under dispatches that nest\<close>

text \<open>
  No call lowers a counter, whatever the callbacks do, dispatches of their own included:
  \<open>on\<close>, \<open>off\<close>, the stamping of a candidate and the writing of the memory leave every
  counter as it is, and \<open>++\<close> does not lower a number.
\<close>

lemma off_epoch: "off event cx f me = Some me' \<Longrightarrow> epoch me' = epoch me"
proof -
  assume o: "off event cx f me = Some me'"
  note h = off_handlers[OF o]
  have "epoch me' e = epoch me e" for e
  proof (cases "e = event")
    case False
    with h show ?thesis by (simp add: epoch_def)
  next
    case True
    show ?thesis
    proof (cases "handlers me event")
      case None
      with h have "me' = me" by blast
      then show ?thesis by simp
    next
      case (Some c)
      with h obtain c' where "handlers me' event = Some c'" "c_handled c' = c_handled c" by blast
      with Some True show ?thesis by (simp add: epoch_def)
    qed
  qed
  then show ?thesis by (simp add: fun_eq_iff)
qed

lemma perform_no_lower:
  assumes "\<forall>a st st'. nest a st = Some st' \<longrightarrow> no_lower st st'"
  shows "perform nest acts me = Some me' \<Longrightarrow> no_lower me me'"
proof (induction acts arbitrary: me)
  case Nil
  then show ?case by simp
next
  case (Cons act acts)
  show ?case
  proof (cases "dispatches act")
    case True
    then have "perform nest (act # acts) me =
        (case nest act me of None \<Rightarrow> None | Some st \<Rightarrow> perform nest acts st)"
      by (cases act) simp_all
    with Cons.prems obtain st where st: "nest act me = Some st" "perform nest acts st = Some me'"
      by (auto split: option.splits)
    from assms st(1) have "no_lower me st" by blast
    moreover from Cons.IH[OF st(2)] have "no_lower st me'" .
    ultimately show ?thesis by (rule no_lower_trans)
  next
    case False
    show ?thesis
    proof (cases act)
      case (Subscribe event cx f)
      with Cons.prems have "perform nest acts (link_handler event cx f me) = Some me'" by simp
      from Cons.IH[OF this] have "no_lower (link_handler event cx f me) me'" .
      moreover have "no_lower me (link_handler event cx f me)"
        using untouched_epoch[OF link_handler_untouched] by (rule no_lower_same)
      ultimately show ?thesis using no_lower_trans by blast
    next
      case (Unsubscribe event cx f)
      with Cons.prems obtain st where st: "off event cx f me = Some st" "perform nest acts st = Some me'"
        by (auto split: option.splits)
      from off_epoch[OF st(1)] have "no_lower me st" by (rule no_lower_same)
      moreover from Cons.IH[OF st(2)] have "no_lower st me'" .
      ultimately show ?thesis by (rule no_lower_trans)
    next
      case (Dispatch event args)
      with False show ?thesis by simp
    next
      case (Redispatch event senile cx f)
      with False show ?thesis by simp
    next
      case (Republish event cx f senile)
      with False show ?thesis by simp
    qed
  qed
qed

lemma call_no_lower:
  assumes "\<forall>a st st'. nest a st = Some st' \<longrightarrow> no_lower st st'"
    and "call nest env c as me = Some (me', out)"
  shows "no_lower me me'"
proof -
  from assms(2) obtain acts o' w where
    p: "perform nest acts (me\<lparr>calls := calls me @ [(c, as, o')], world := w\<rparr>) = Some me'"
    by (auto simp: call_def split: option.splits prod.splits)
  have "epoch (me\<lparr>calls := calls me @ [(c, as, o')], world := w\<rparr>) = epoch me"
    by (simp add: epoch_def fun_eq_iff)
  then have "no_lower me (me\<lparr>calls := calls me @ [(c, as, o')], world := w\<rparr>)" by (rule no_lower_same)
  moreover from perform_no_lower[OF assms(1) p]
  have "no_lower (me\<lparr>calls := calls me @ [(c, as, o')], world := w\<rparr>) me'" .
  ultimately show ?thesis by (rule no_lower_trans)
qed

lemma set_handled_epoch [simp]: "epoch (set_handled c h me) = epoch me"
  by (simp add: epoch_def set_handled_def fun_eq_iff)

lemma set_memory_epoch [simp]: "epoch (set_memory event args me) = epoch me"
  by (auto simp: epoch_def set_memory_def fun_eq_iff split: option.splits)

lemma gen_next_no_lower:
  assumes "\<forall>a st st'. nest a st = Some st' \<longrightarrow> no_lower st st'"
  shows "gen_next aware piped nest env event cs h args results direct me = Some (me', res) \<Longrightarrow>
         no_lower me me'"
proof (induction cs arbitrary: args results direct me)
  case Nil
  then show ?case by (auto simp: no_lower_same split: if_splits)
next
  case (Cons c cs)
  show ?case
  proof (cases "aware \<and> blocked env me c")
    case True
    with Cons.prems have "gen_next aware piped nest env event cs h args results direct me = Some (me', res)"
      by simp
    from Cons.IH[OF this] show ?thesis .
  next
    case False
    then have nb: "(aware \<and> blocked env me c) = False" by simp
    have s: "no_lower me (set_handled c h me)" by (simp add: no_lower_same)
    show ?thesis
    proof (cases "identical h h")
      case guard: False
      with nb Cons.prems have "me' = set_handled c h me" by auto
      with s show ?thesis by simp
    next
      case guard: True
      show ?thesis
      proof (cases "apply_args args")
        case None
        with nb guard Cons.prems have "me' = set_handled c h me" by auto
        with s show ?thesis by simp
      next
        case (Some as)
        show ?thesis
        proof (cases "call nest env c as (set_handled c h me)")
          case None
          with nb guard Some Cons.prems show ?thesis by auto
        next
          case call: (Some p)
          obtain me2 out where p: "p = (me2, out)" by (cases p)
          from call p have "no_lower (set_handled c h me) me2"
            using call_no_lower[OF assms] by blast
          with s have s2: "no_lower me me2" by (rule no_lower_trans)
          show ?thesis
          proof (cases out)
            case (Returns v)
            from nb guard Some call p Returns Cons.prems
            have "gen_next aware piped nest env event cs h
                    (if piped \<and> v \<noteq> JUndefined then v else args) (results @ [v]) False me2 = Some (me', res)"
              by auto
            from Cons.IH[OF this] have "no_lower me2 me'" .
            with s2 show ?thesis by (rule no_lower_trans)
          next
            case (Throws e)
            with nb guard Some call p Cons.prems have "me' = me2" by auto
            with s2 show ?thesis by simp
          next
            case (Rejects e)
            with nb guard Some call p Cons.prems have "me' = me2" by auto
            with s2 show ?thesis by simp
          qed
        qed
      qed
    qed
  qed
qed

lemma run_no_lower:
  assumes "\<forall>a st st'. nest a st = Some st' \<longrightarrow> no_lower st st'"
    and "run nest r env event cs h args me = Some (me', res)"
  shows "no_lower me me'"
proof (cases "\<exists>name. r = Inherited name")
  case True
  with assms(2) show ?thesis by auto
next
  case False
  then have ni: "\<forall>name. r \<noteq> Inherited name" by blast
  have "gen_next (is_aware r) (is_piped r) nest env event cs h args [] True me = Some (me', res)"
    using assms(2) unfolding run_gen[OF ni] .
  with assms(1) show ?thesis by (rule gen_next_no_lower)
qed

lemma ensure_no_lower: "no_lower me (ensure event me)"
  by (simp add: no_lower_same)

lemma bump_no_lower: "no_lower me (bump event me)"
  unfolding no_lower_def
proof (intro allI impI)
  fix e n assume "epoch me e = Some (Num n)"
  then show "\<exists>n'. n \<le> n' \<and> epoch (bump event me) e = Some (Num n')"
    using increment_no_lower[of n] by (auto simp: bump_epoch)
qed

text \<open>
  What \<open>emit\<close> and \<open>reemit\<close> are on any emitter: the runner, called with some list of
  candidates, on the emitter in which the chain exists and, for \<open>emit\<close>, its counter has
  been incremented.
\<close>

lemma emit_at_cases:
  assumes "emit_at nest env event args me = Some (me', res)"
  shows "me' = me \<or> (\<exists>name. me' = ensure name me) \<or>
    (\<exists>name r cs. select_runner RE_RUNNER_exec env event = Inr (name, Some r) \<and>
       run nest r env name cs (Some (increment (epoch me name))) (JArr args)
         (bump name (ensure name me)) = Some (me', res))"
proof (cases rule: select_runner_cases[of RE_RUNNER_exec env event])
  case (raise rn)
  with assms show ?thesis by (simp add: emit_at_def)
next
  case (no_default name)
  with assms show ?thesis
    by (auto simp: emit_at_def ensure_def split: option.splits)
next
  case (dispatch name r)
  show ?thesis
  proof (cases "handlers me name")
    case None
    with dispatch assms
    have "run nest r env name [] (Some (increment (epoch me name))) (JArr args)
            (bump name (ensure name me)) = Some (me', res)"
      by (simp add: emit_at_def epoch_def ensure_def bump_def new_chain_def)
    with dispatch show ?thesis by blast
  next
    case (Some c)
    with dispatch assms obtain cs where
      "run nest r env name cs (Some (increment (epoch me name))) (JArr args)
            (bump name (ensure name me)) = Some (me', res)"
      by (auto simp: emit_at_def epoch_def ensure_def bump_def split: option.splits)
    with dispatch show ?thesis by blast
  qed
qed

lemma replay_cases:
  assumes "replay nest re env event senile cx f me = Some (me', res)"
  shows "me' = me \<or> (\<exists>name. me' = ensure name me) \<or>
    (\<exists>name r cs. select_runner re env event = Inr (name, Some r) \<and>
       run nest r env name cs (epoch me name)
         (case memory me name of None \<Rightarrow> JUndefined | Some m \<Rightarrow> m) (ensure name me) = Some (me', res))"
proof (cases rule: select_runner_cases[of re env event])
  case (raise rn)
  with assms show ?thesis by (simp add: replay_def)
next
  case (no_default name)
  with assms show ?thesis
    by (auto simp: replay_def ensure_def split: option.splits)
next
  case (dispatch name r)
  show ?thesis
  proof (cases "handlers me name")
    case None
    with dispatch assms
    have "run nest r env name [] (epoch me name)
            (case memory me name of None \<Rightarrow> JUndefined | Some m \<Rightarrow> m) (ensure name me) = Some (me', res)"
      by (simp add: replay_def epoch_def memory_def ensure_def new_chain_def)
    with dispatch show ?thesis by blast
  next
    case (Some c)
    with dispatch assms obtain cs where
      "run nest r env name cs (epoch me name)
            (case memory me name of None \<Rightarrow> JUndefined | Some m \<Rightarrow> m) (ensure name me) = Some (me', res)"
      by (auto simp: replay_def epoch_def memory_def ensure_def split: option.splits)
    with dispatch show ?thesis by blast
  qed
qed

lemma emit_at_no_lower:
  assumes "\<forall>a st st'. nest a st = Some st' \<longrightarrow> no_lower st st'"
    and "emit_at nest env event args me = Some (me', res)"
  shows "no_lower me me'"
proof -
  from emit_at_cases[OF assms(2)] consider "me' = me"
    | name where "me' = ensure name me"
    | name r cs where "run nest r env name cs (Some (increment (epoch me name))) (JArr args)
         (bump name (ensure name me)) = Some (me', res)" by blast
  then show ?thesis
  proof cases
    case 1
    then show ?thesis by simp
  next
    case 2
    then show ?thesis by (simp add: ensure_no_lower)
  next
    case 3
    from run_no_lower[OF assms(1) 3] have "no_lower (bump name (ensure name me)) me'" .
    with no_lower_trans[OF ensure_no_lower bump_no_lower] show ?thesis by (rule no_lower_trans)
  qed
qed

lemma replay_no_lower:
  assumes "\<forall>a st st'. nest a st = Some st' \<longrightarrow> no_lower st st'"
    and "replay nest re env event senile cx f me = Some (me', res)"
  shows "no_lower me me'"
proof -
  from replay_cases[OF assms(2)] consider "me' = me"
    | name where "me' = ensure name me"
    | name r cs where "run nest r env name cs (epoch me name)
         (case memory me name of None \<Rightarrow> JUndefined | Some m \<Rightarrow> m) (ensure name me) = Some (me', res)"
    by blast
  then show ?thesis
  proof cases
    case 1
    then show ?thesis by simp
  next
    case 2
    then show ?thesis by (simp add: ensure_no_lower)
  next
    case 3
    from run_no_lower[OF assms(1) 3] have "no_lower (ensure name me) me'" .
    with ensure_no_lower show ?thesis by (rule no_lower_trans)
  qed
qed

lemma nested_no_lower: "nested n env a st = Some st' \<Longrightarrow> no_lower st st'"
proof (induction n arbitrary: a st st')
  case 0
  then show ?case by simp
next
  case (Suc n)
  from Suc.IH have nest: "\<forall>a st st'. nested n env a st = Some st' \<longrightarrow> no_lower st st'" by blast
  show ?case
  proof (cases a)
    case (Subscribe event cx f)
    with Suc.prems show ?thesis by simp
  next
    case (Unsubscribe event cx f)
    with Suc.prems show ?thesis by simp
  next
    case (Dispatch event args)
    with Suc.prems obtain res where "emit_at (nested n env) env event args st = Some (st', res)"
      by auto
    with nest show ?thesis by (rule emit_at_no_lower)
  next
    case (Redispatch event senile cx f)
    with Suc.prems obtain res where
      "replay (nested n env) RE_RUNNER_exec env event senile cx f st = Some (st', res)" by auto
    with nest show ?thesis by (rule replay_no_lower)
  next
    case (Republish event cx f senile)
    with Suc.prems obtain res where
      "replay (nested n env) (re_runner env) env event senile cx f st = Some (st', res)" by auto
    with nest show ?thesis by (rule replay_no_lower)
  qed
qed

lemma serve_no_lower: "serve env q me = Some me' \<Longrightarrow> no_lower me me'"
proof (cases q)
  case (On event cx f)
  assume "serve env q me = Some me'"
  with On show ?thesis
    by (cases f) (auto simp: on_def intro: no_lower_same untouched_epoch[OF link_handler_untouched])
next
  case (Off event cx f)
  assume "serve env q me = Some me'"
  with Off have "off event cx f me = Some me'" by simp
  from off_epoch[OF this] show ?thesis by (rule no_lower_same)
next
  case (Emit event args)
  assume "serve env q me = Some me'"
  with Emit obtain res where "emit_at (nested (stack env) env) env event args me = Some (me', res)"
    by (auto simp: emit_def)
  then show ?thesis using nested_no_lower emit_at_no_lower by blast
next
  case (Reemit event senile cx f)
  assume "serve env q me = Some me'"
  with Reemit obtain res where
    "replay (nested (stack env) env) RE_RUNNER_exec env event senile cx f me = Some (me', res)"
    by (auto simp: reemit_def)
  then show ?thesis using nested_no_lower replay_no_lower by blast
next
  case (Peek event)
  assume "serve env q me = Some me'"
  with Peek show ?thesis by simp
qed

lemma serve_all_no_lower: "serve_all env qs me = Some me' \<Longrightarrow> no_lower me me'"
proof (induction qs arbitrary: me)
  case Nil
  then show ?case by simp
next
  case (Cons q qs)
  then obtain st where st: "serve env q me = Some st" "serve_all env qs st = Some me'"
    by (auto split: option.splits)
  from serve_no_lower[OF st(1)] Cons.IH[OF st(2)] show ?case by (rule no_lower_trans)
qed

section \<open>Evaluating the model\<close>

text \<open>The definitions a concrete run unfolds.\<close>

lemmas example_defs =
  emit_def replay_def reemit_def republish_def select_runner_def RE_RUNNER_exec_def
  is_line_terminator_def is_word_def hub_runners_def emitter_runners_def scripted_def quiet_def
  link_handler_def Let_def EventEmitter_def new_chain_def look_def set_next_def
  pipeline_def sequence_def hub_sequence_def set_handled_def set_memory_def call_def
  blocked_def RE_PHASE_test_def failed_def mismatch_def emit_at_def inherited_def
  Object_prototype_def plain_object_def builtin_def identical_def increment_def refused_def


lemma example_wf1: "well_linked (link_handler ''evt'' (Some 0) 0 (EventEmitter ()))"
  by (intro link_handler_wf wf_EventEmitter)





lemma ab_wf: "well_linked ab"
  unfolding ab_def by (intro link_handler_wf wf_EventEmitter)

lemma ab_members: "members ab ''evt'' = [0, 1]"
  by (simp add: ab_def members_def example_defs)


lemma abc_chain: "handlers abc ''evt'' \<noteq> None"
  by (simp add: abc_def example_defs)

lemma abc_calls: "calls abc = []"
  by (simp add: abc_def example_defs)


section \<open>The claims\<close>

text \<open>
  C1, at a handler that returns a number. Two handlers are subscribed to \<open>evt\<close> on the hub
  and the first returns \<open>5\<close>. The pipeline takes \<open>5\<close> itself as the argument value, so
  applying the second callback to it is a \<open>TypeError\<close>: the second handler is never invoked
  (the log holds the first invocation only) and the dispatch rejects, where the
  documentation of \<open>publish\<close> promises the second handler the one value as its single
  argument.
\<close>

theorem pipeline_scalar_result:
  "\<exists>me'. emit (scripted hub_runners
               (\<lambda>f. if f = 0 then ([], Returns (JNum 5)) else ([], Returns JUndefined))
               (\<lambda>c. ''started''))
            ''evt'' [JNum 1]
            (link_handler ''evt'' (Some 1) 1 (link_handler ''evt'' (Some 0) 0 (EventEmitter ())))
          = Some (me', Rejected TypeError) \<and>
        calls me' = [(0, [JNum 1], Returns (JNum 5))]"
  by (simp add: example_defs)


text \<open>
  C3 (as amended). The runner pattern does not split the event argument at its first colon.
  It matches exactly when the argument is \<open>name:rest\<close> with \<open>name\<close> non-empty and free of
  line terminators, \<open>rest\<close> starting with a word character, and no later colon of \<open>rest\<close>
  that \<open>.+\<close> could reach being followed by a word character: the split is at the last
  such colon. The runner name is the longest run of word characters after that colon;
  what follows the run is ignored. An argument the pattern does not match is the event
  name as a whole, with the default runner. When the lookup of the runner name in the
  runner table finds nothing, \<open>emit\<close>, \<open>reemit\<close> and \<open>republish\<close> fail with
  \<open>UnknownRunner\<close> as an exception of the call, and the emitter (chains, handlers,
  invocation log) is as before. In the tables of the emitter and of the hub the lookup
  finds nothing exactly when the name is none of the table's entries and none of the
  names a plain object inherits from \<open>Object.prototype\<close>; nothing is said here of a
  dispatch that names an inherited property as its runner.
\<close>

theorem runner_suffix:
  "(RE_RUNNER_exec event = Some (name, rn) \<longleftrightarrow>
      (\<exists>b. event = name @ CHR '':'' # b \<and> name \<noteq> [] \<and> (\<forall>c \<in> set name. \<not> is_line_terminator c) \<and>
           rn = takeWhile is_word b \<and> rn \<noteq> [] \<and> \<not> splits (name @ '':'') b)) \<and>
   (RE_RUNNER_exec event = None \<longleftrightarrow> \<not> splits [] event) \<and>
   (RE_RUNNER_exec event = Some (name, rn) \<longrightarrow> runners env rn = None \<longrightarrow>
      emit env event args me = Some (me, Raised (UnknownRunner rn)) \<and>
      reemit env event senile cx f me = Some (me, Raised (UnknownRunner rn))) \<and>
   (re_runner env event = Some (name, rn) \<longrightarrow> runners env rn = None \<longrightarrow>
      republish env event cx f senile me = Some (me, Raised (UnknownRunner rn))) \<and>
   (RE_RUNNER_exec event = Some (name, rn) \<longrightarrow> runners env rn = Some r \<longrightarrow>
      select_runner RE_RUNNER_exec env event = Inr (name, Some r)) \<and>
   (RE_RUNNER_exec event = None \<longrightarrow>
      select_runner RE_RUNNER_exec env event = Inr (event, runners env ''default'')) \<and>
   (emitter_runners rn = None \<longleftrightarrow> rn \<notin> {''sequence'', ''default''} \<and> \<not> inherited rn) \<and>
   (hub_runners rn = None \<longleftrightarrow> rn \<notin> {''pipeline'', ''sequence'', ''default''} \<and> \<not> inherited rn)"
proof (intro conjI impI)
  show "RE_RUNNER_exec event = Some (name, rn) \<longleftrightarrow>
      (\<exists>b. event = name @ CHR '':'' # b \<and> name \<noteq> [] \<and> (\<forall>c \<in> set name. \<not> is_line_terminator c) \<and>
           rn = takeWhile is_word b \<and> rn \<noteq> [] \<and> \<not> splits (name @ '':'') b)"
    using RE_RUNNER_exec_Some RE_RUNNER_exec_complete by blast
  show "RE_RUNNER_exec event = None \<longleftrightarrow> \<not> splits [] event"
    by (simp add: RE_RUNNER_exec_def RE_RUNNER_from_None)
  show "emitter_runners rn = None \<longleftrightarrow> rn \<notin> {''sequence'', ''default''} \<and> \<not> inherited rn"
    by (simp add: emitter_runners_def plain_object_def)
  show "hub_runners rn = None \<longleftrightarrow> rn \<notin> {''pipeline'', ''sequence'', ''default''} \<and> \<not> inherited rn"
    by (auto simp: hub_runners_def plain_object_def map_add_def split: option.splits if_splits)
qed (simp_all add: emit_def emit_unknown reemit_def republish_def replay_unknown select_runner_def)

theorem runner_suffix_witness:
  "RE_RUNNER_exec ''evt:bogus'' = Some (''evt'', ''bogus'') \<and>
   runners (quiet hub_runners) ''bogus'' = None \<and>
   emit (quiet hub_runners) ''evt:bogus'' [JNum 1] (EventEmitter ()) =
     Some (EventEmitter (), Raised (UnknownRunner ''bogus''))"
proof -
  have 1: "RE_RUNNER_exec ''evt:bogus'' = Some (''evt'', ''bogus'')" by (rule exec_bogus)
  have 2: "runners (quiet hub_runners) ''bogus'' = None"
    by (simp add: quiet_def hub_runners_def plain_object_def inherited_def Object_prototype_def)
  from runner_suffix[of "''evt:bogus''" "''evt''" "''bogus''" "quiet hub_runners" "[JNum 1]" "EventEmitter ()"]
  show ?thesis using 1 2 by blast
qed

text \<open>
  C3 as stated fails: split at the first colon, \<open>a:b:sequence\<close> would name the event \<open>a\<close>
  and a runner \<open>b:sequence\<close> that no table has, an error. The emitter dispatches the event
  \<open>a:b\<close> with the runner \<open>sequence\<close> instead.
\<close>

theorem first_colon_counterexample:
  "RE_RUNNER_exec ''a:b:sequence'' = Some (''a:b'', ''sequence'') \<and>
   emitter_runners ''b:sequence'' = None \<and>
   (\<exists>me'. emit (quiet emitter_runners) ''a:b:sequence'' [] (EventEmitter ()) =
       Some (me', Resolved (JArr [])) \<and>
     handlers me' ''a:b'' = Some \<lparr>c_head = None, c_tail = None, c_handled = Some (Num 1),
                                  c_memory = Some (JArr [])\<rparr> \<and>
     handlers me' ''a'' = None \<and> calls me' = [])"
  by (simp add: example_defs)

text \<open>
  C5, at an event that has a subscriber and was never dispatched. The chain exists (made
  by \<open>on\<close>) with counter \<open>0\<close> and no memory; the handler's stamp is undefined, which is
  not \<open>0\<close>, so \<open>reemit\<close> takes it as a candidate and invokes it with no arguments, where
  the replay of an event that was never emitted is documented to be dismissed.
\<close>

theorem replay_before_first_dispatch:
  "\<exists>me'. reemit (quiet emitter_runners) ''evt'' False None None
            (link_handler ''evt'' (Some 0) 0 (EventEmitter ()))
          = Some (me', Resolved (JArr [JUndefined])) \<and>
        calls me' = [(0, [], Returns JUndefined)] \<and>
        peek ''evt'' (link_handler ''evt'' (Some 0) 0 (EventEmitter ())) = JUndefined \<and>
        epoch (link_handler ''evt'' (Some 0) 0 (EventEmitter ())) ''evt'' = Some (Num 0)"
  by (simp add: example_defs peek_def epoch_def)

text \<open>
  C7 (as amended). Whatever the callbacks do, dispatches of their own included, a
  sequence of \<open>on\<close>, \<open>off\<close>, \<open>emit\<close>, \<open>reemit\<close> and \<open>peek\<close> calls that returns leaves every
  counter that was a number a number, and not a lower one (the counter of an event without
  a chain counting as \<open>0\<close>, the value its chain is created with). \<open>off\<close> and \<open>on\<close> (which
  fails without a callback) leave every counter as it was; \<open>peek\<close> returns a value and has
  no state to change. In a fresh emitter the counter of every event is the number \<open>0\<close>,
  except under the names that a plain object inherits from \<open>Object.prototype\<close>, of which
  nothing is said here. On an emitter whose chains are well linked, with callbacks that
  make no dispatch of their own, every such sequence returns; an \<open>emit\<close> that finds its
  runner leaves every other counter alone and raises the counter of the event it names by
  exactly one as long as that is a number below \<open>2^53\<close>, and at \<open>2^53\<close> the counter
  stays where it is; an \<open>emit\<close> that does not find its runner leaves every counter as it
  was, and so does \<open>reemit\<close>.
\<close>

theorem epoch_monotone:
  "(\<forall>me'. serve_all env qs me = Some me' \<longrightarrow>
      (\<forall>e n. epoch me e = Some (Num n) \<longrightarrow> (\<exists>n'. n \<le> n' \<and> epoch me' e = Some (Num n')))) \<and>
   (\<forall>me'. off event cx f me = Some me' \<longrightarrow> epoch me' = epoch me) \<and>
   on event cx None me = Inl NoCallback \<and>
   (\<exists>me'. on event cx (Some g) me = Inr me' \<and> epoch me' = epoch me) \<and>
   (\<forall>w e. \<not> inherited e \<longrightarrow> epoch (EventEmitter w) e = Some (Num 0)) \<and>
   (well_linked me \<longrightarrow> no_dispatch env \<longrightarrow>
      (\<exists>me'. serve_all env qs me = Some me' \<and> well_linked me') \<and>
      (\<exists>me' res. emit env event args me = Some (me', res) \<and>
         (\<forall>name r. select_runner RE_RUNNER_exec env event = Inr (name, Some r) \<longrightarrow>
            (\<forall>e. e \<noteq> name \<longrightarrow> epoch me' e = epoch me e) \<and>
            (\<forall>n. epoch me name = Some (Num n) \<longrightarrow>
               epoch me' name = Some (Num (if n < 2 ^ 53 then Suc n else n)))) \<and>
         ((\<forall>name r. select_runner RE_RUNNER_exec env event \<noteq> Inr (name, Some r)) \<longrightarrow>
            epoch me' = epoch me)) \<and>
      (\<exists>me' res. reemit env event senile cx f me = Some (me', res) \<and> epoch me' = epoch me) \<and>
      (\<exists>me'. off event cx f me = Some me'))"
proof (intro conjI impI allI)
  fix me' e n
  assume "serve_all env qs me = Some me'" "epoch me e = Some (Num n)"
  then show "\<exists>n'. n \<le> n' \<and> epoch me' e = Some (Num n')"
    using serve_all_no_lower unfolding no_lower_def by blast
next
  fix me' assume "off event cx f me = Some me'"
  then show "epoch me' = epoch me" by (rule off_epoch)
next
  show "on event cx None me = Inl NoCallback" by (simp add: on_def)
  show "\<exists>me'. on event cx (Some g) me = Inr me' \<and> epoch me' = epoch me"
    using untouched_epoch[OF link_handler_untouched] by (simp add: on_def)
next
  fix w :: 'b and e assume "\<not> inherited e"
  then show "epoch (EventEmitter w) e = Some (Num 0)"
    by (simp add: epoch_def EventEmitter_def)
next
  assume assms: "well_linked me" "no_dispatch env"
  show "\<exists>me'. serve_all env qs me = Some me' \<and> well_linked me'"
    using serve_all_spec[OF assms, of qs] by blast
  show "\<exists>me' res. emit env event args me = Some (me', res) \<and>
       (\<forall>name r. select_runner RE_RUNNER_exec env event = Inr (name, Some r) \<longrightarrow>
          (\<forall>e. e \<noteq> name \<longrightarrow> epoch me' e = epoch me e) \<and>
          (\<forall>n. epoch me name = Some (Num n) \<longrightarrow>
             epoch me' name = Some (Num (if n < 2 ^ 53 then Suc n else n)))) \<and>
       ((\<forall>name r. select_runner RE_RUNNER_exec env event \<noteq> Inr (name, Some r)) \<longrightarrow>
          epoch me' = epoch me)"
  proof (cases rule: select_runner_cases[of RE_RUNNER_exec env event])
    case (raise rn)
    then show ?thesis by (simp add: emit_def emit_raise)
  next
    case (no_default name)
    with assms show ?thesis by (auto simp: emit_def emit_no_default)
  next
    case (dispatch name r)
    from emit_total[OF assms, of "nested (stack env) env" event args] dispatch show ?thesis
      unfolding emit_def by (auto simp: increment_def)
  qed
  show "\<exists>me' res. reemit env event senile cx f me = Some (me', res) \<and> epoch me' = epoch me"
    using replay_total[OF assms, of "nested (stack env) env" RE_RUNNER_exec event senile cx f]
    unfolding reemit_def by blast
  show "\<exists>me'. off event cx f me = Some me'"
    using off_spec[OF assms(1), of event cx f] by blast
qed

theorem epoch_monotone_witness:
  "well_linked (link_handler ''evt'' (Some 0) 0 (EventEmitter ()) :: unit emitter) \<and>
   no_dispatch (quiet emitter_runners) \<and>
   select_runner RE_RUNNER_exec (quiet emitter_runners) ''evt'' = Inr (''evt'', Some EmitterSequence) \<and>
   epoch (link_handler ''evt'' (Some 0) 0 (EventEmitter ()) :: unit emitter) ''evt'' = Some (Num 0) \<and>
   (\<exists>me' res. emit (quiet emitter_runners) ''evt'' [JNum 1]
        (link_handler ''evt'' (Some 0) 0 (EventEmitter ())) = Some (me', res) \<and>
      epoch me' ''evt'' = Some (Num 1) \<and> epoch me' ''other'' = Some (Num 0)) \<and>
   (\<exists>me' n. serve_all (quiet emitter_runners)
        [Emit ''evt'' [JNum 1], Reemit ''evt'' True None None, Off ''evt'' None None, Emit ''evt'' []]
        (link_handler ''evt'' (Some 0) 0 (EventEmitter ())) = Some me' \<and>
      epoch me' ''evt'' = Some (Num n))"
proof -
  let ?me = "link_handler ''evt'' (Some 0) 0 (EventEmitter ()) :: unit emitter"
  let ?env = "quiet emitter_runners"
  let ?qs = "[Emit ''evt'' [JNum 1], Reemit ''evt'' True None None, Off ''evt'' None None, Emit ''evt'' []]"
  have wl: "well_linked ?me" by (rule example_wf1)
  have nd: "no_dispatch ?env" by (simp add: no_dispatch_def quiet_def)
  have sel: "select_runner RE_RUNNER_exec ?env ''evt'' = Inr (''evt'', Some EmitterSequence)"
    by (simp add: example_defs)
  have e0: "epoch ?me ''evt'' = Some (Num 0)" "epoch ?me ''other'' = Some (Num 0)"
    by (simp_all add: example_defs epoch_def)
  note t = epoch_monotone[of ?env ?qs ?me "''evt''" None None 0 "[JNum 1]" True]
  note mono = t[THEN conjunct1]
  note rest = t[THEN conjunct2, THEN conjunct2, THEN conjunct2, THEN conjunct2, THEN conjunct2,
      THEN mp, OF wl, THEN mp, OF nd]
  from rest[THEN conjunct1] obtain st where st: "serve_all ?env ?qs ?me = Some st" by blast
  from mono st e0(1) obtain n where n: "epoch st ''evt'' = Some (Num n)" by blast
  from rest[THEN conjunct2, THEN conjunct1] obtain me' res where
    em: "emit ?env ''evt'' [JNum 1] ?me = Some (me', res)"
    and ep: "\<forall>name r. select_runner RE_RUNNER_exec ?env ''evt'' = Inr (name, Some r) \<longrightarrow>
            (\<forall>e. e \<noteq> name \<longrightarrow> epoch me' e = epoch ?me e) \<and>
            (\<forall>n. epoch ?me name = Some (Num n) \<longrightarrow>
               epoch me' name = Some (Num (if n < 2 ^ 53 then Suc n else n)))"
    by blast
  from ep sel have other: "\<forall>e. e \<noteq> ''evt'' \<longrightarrow> epoch me' e = epoch ?me e"
    and this_one: "\<forall>n. epoch ?me ''evt'' = Some (Num n) \<longrightarrow>
               epoch me' ''evt'' = Some (Num (if n < 2 ^ 53 then Suc n else n))"
    by blast+
  from this_one e0(1) have 1: "epoch me' ''evt'' = Some (Num 1)" by simp
  from other e0(2) have 2: "epoch me' ''other'' = Some (Num 0)" by simp
  have a: "\<exists>me' res. emit ?env ''evt'' [JNum 1] ?me = Some (me', res) \<and>
      epoch me' ''evt'' = Some (Num 1) \<and> epoch me' ''other'' = Some (Num 0)"
    using em 1 2 by blast
  have b: "\<exists>me' n. serve_all ?env ?qs ?me = Some me' \<and> epoch me' ''evt'' = Some (Num n)"
    using st n by blast
  show ?thesis
    by (intro conjI) (fact wl nd sel e0(1) a b)+
qed

text \<open>
  C7 as stated fails: \<open>emit\<close> does not raise the counter by one on every call. The counter
  is a double: once it is \<open>2^53\<close>, an \<open>emit\<close> that runs and resolves leaves it at \<open>2^53\<close>.
  And the first \<open>emit\<close> of the event \<open>toString\<close> on a fresh emitter does not take a
  counter from \<open>0\<close> to \<open>1\<close>: the registry finds the built-in function under that name and
  takes it for the chain, \<open>handled\<close> is never set to \<open>0\<close>, and \<open>++\<close> makes it \<open>NaN\<close>.
\<close>

theorem counter_not_raised:
  "(\<exists>me' v. emit (quiet emitter_runners) ''evt'' []
        ((EventEmitter ())\<lparr>handlers := (handlers (EventEmitter ()))
            (''evt'' \<mapsto> new_chain\<lparr>c_handled := Some (Num (2 ^ 53))\<rparr>)\<rparr>) = Some (me', Resolved v) \<and>
      epoch me' ''evt'' = Some (Num (2 ^ 53)) \<and> epoch me' ''evt'' \<noteq> Some (Num (Suc (2 ^ 53)))) \<and>
   epoch (EventEmitter () :: unit emitter) ''toString'' = None \<and>
   (\<exists>me' v. emit (quiet emitter_runners) ''toString'' [] (EventEmitter ()) = Some (me', Resolved v) \<and>
      epoch me' ''toString'' = Some NaN \<and> epoch me' ''toString'' \<noteq> Some (Num 1))"
  by (simp add: example_defs epoch_def)






text \<open>
  C9. Whatever the callbacks of a dispatch do to the chains while it runs (each may
  subscribe and unsubscribe on the emitter before it settles; none makes a dispatch of
  its own, whose invocations the log would not tell from those of this one), an \<open>emit\<close>
  on a well-linked emitter returns, and the handlers it invokes are handlers of the chain
  as it was when \<open>emit\<close> was called, in that chain's order: no handler object created
  during the dispatch is invoked. With the emitter's \<open>sequence\<close> runner the invoked handlers are a
  prefix of that chain, and the whole of it when the dispatch resolves, so a handler that
  was unsubscribed before its turn is invoked all the same.
\<close>

theorem snapshot_independent:
  assumes "well_linked me" and "select_runner RE_RUNNER_exec env event = Inr (name, Some r)"
    and "no_dispatch env"
  shows "\<exists>me' res. emit env event args me = Some (me', res) \<and>
       subseq (map fst (invoked me me')) (members me name) \<and>
       (\<forall>x \<in> set (map fst (invoked me me')). x < length (heap me)) \<and>
       (r = EmitterSequence \<longrightarrow>
          map fst (invoked me me') = take (length (invoked me me')) (members me name) \<and>
          ((\<exists>v. res = Resolved v) \<longrightarrow> map fst (invoked me me') = members me name))"
proof -
  from emit_spec[OF assms, of "nested (stack env) env" args] obtain me' res new where
    e: "emit env event args me = Some (me', res)"
    and ok: "run_ok (is_aware r) (is_piped r) name (members me name) (JArr args) [] True
             (bump name (ensure name me)) me' res new" unfolding emit_def by blast
  have inv: "invoked me me' = new" using ok by (rule run_ok_invoked) simp
  from ok have sub: "subseq (map fst new) (members me name)"
    and pre: "\<not> is_aware r \<longrightarrow> map fst new = take (length new) (members me name)"
    and full: "\<not> is_aware r \<longrightarrow> (\<exists>v. res = Resolved v) \<longrightarrow> map fst new = members me name"
    unfolding run_ok_def by blast+
  from sub have "set (map fst new) \<subseteq> set (members me name)" by (rule subseq_subset)
  then have valid: "\<forall>x \<in> set (map fst new). x < length (heap me)"
    using members_valid[OF assms(1)] by blast
  show ?thesis
    using e sub valid pre full unfolding inv[symmetric] by (auto simp: is_aware_def)
qed

theorem snapshot_independent_witness:
  "well_linked ab \<and> members ab ''evt'' = [0, 1] \<and>
   no_dispatch (scripted emitter_runners
        (\<lambda>f. if f = 0 then ([Unsubscribe ''evt'' None (Some 1), Subscribe ''evt'' None 2],
                             Returns JUndefined)
             else ([], Returns JUndefined)) (\<lambda>c. ''started'')) \<and>
   (\<exists>me' res. emit (scripted emitter_runners
        (\<lambda>f. if f = 0 then ([Unsubscribe ''evt'' None (Some 1), Subscribe ''evt'' None 2],
                             Returns JUndefined)
             else ([], Returns JUndefined)) (\<lambda>c. ''started'')) ''evt'' [] ab = Some (me', res) \<and>
      map fst (invoked ab me') = [0, 1] \<and> members me' ''evt'' = [0, 2])"
proof -
  let ?env = "scripted emitter_runners
        (\<lambda>f. if f = 0 then ([Unsubscribe ''evt'' None (Some 1), Subscribe ''evt'' None 2],
                             Returns JUndefined)
             else ([], Returns JUndefined)) (\<lambda>c. ''started'')"
  have sel: "select_runner RE_RUNNER_exec ?env ''evt'' = Inr (''evt'', Some EmitterSequence)"
    by (simp add: example_defs)
  have run: "\<exists>me'. emit ?env ''evt'' [] ab = Some (me', Resolved (JArr [JUndefined, JUndefined])) \<and>
      members me' ''evt'' = [0, 2]"
    by (simp add: ab_def example_defs off_def members_def first_of_def)
  have nd: "no_dispatch ?env" by (simp add: no_dispatch_def scripted_def)
  from snapshot_independent[OF ab_wf sel nd, of "[]"] run
  show ?thesis using ab_wf nd by (auto simp: ab_members)
qed

text \<open>
  The emitter's \<open>sequence\<close> in general. Called on a well-linked emitter with a counter
  that is not \<open>NaN\<close>, an argument list and candidates that are handler objects of the
  heap, by callbacks that make no dispatch of their own, it returns. The log of its
  invocations lists the candidates in their order (a prefix of them, all of them when the
  run resolves), each invoked with the original argument list, and each entry carries the
  outcome the invocation settled with before the next one was made. When the run resolves,
  it resolves with the list of the values the invocations returned, in the order of the
  invocations and one per candidate, and the chain's memory is the original argument
  list; it resolves whenever every invocation returned. The hub's \<open>sequence\<close> differs in
  that the invoked handlers are a subsequence of the candidates: a skipped candidate has
  no entry in the log and none in the results.
\<close>

lemma sequence_collects:
  assumes "well_linked me" and "\<forall>c \<in> set cs. c < length (heap me)" and "handlers me event \<noteq> None"
    and "no_dispatch env" and "identical h h"
  shows "(\<exists>me' res. sequence nest env event cs h (JArr as) me = Some (me', res) \<and>
     map fst (invoked me me') = take (length (invoked me me')) cs \<and>
     (\<forall>entry \<in> set (invoked me me'). fst (snd entry) = as) \<and>
     (\<forall>v. res = Resolved v \<longrightarrow>
        map fst (invoked me me') = cs \<and> v = JArr (returned (invoked me me')) \<and>
        length (returned (invoked me me')) = length cs \<and> memory me' event = Some (JArr as)) \<and>
     ((\<forall>entry \<in> set (invoked me me'). \<exists>v. snd (snd entry) = Returns v) \<longrightarrow>
        (\<exists>v. res = Resolved v))) \<and>
   (\<exists>me' res. hub_sequence nest env event cs h (JArr as) me = Some (me', res) \<and>
     subseq (map fst (invoked me me')) cs \<and>
     (\<forall>entry \<in> set (invoked me me'). fst (snd entry) = as) \<and>
     (\<forall>v. res = Resolved v \<longrightarrow>
        v = JArr (returned (invoked me me')) \<and>
        length (returned (invoked me me')) = length (invoked me me') \<and>
        memory me' event = Some (JArr as)) \<and>
     ((\<forall>entry \<in> set (invoked me me'). \<exists>v. snd (snd entry) = Returns v) \<longrightarrow>
        (\<exists>v. res = Resolved v)))"
proof -
  have common: "\<exists>me' res. gen_next aware False nest env event cs h (JArr as) [] True me = Some (me', res) \<and>
     subseq (map fst (invoked me me')) cs \<and>
     (\<not> aware \<longrightarrow> map fst (invoked me me') = take (length (invoked me me')) cs) \<and>
     (\<forall>entry \<in> set (invoked me me'). fst (snd entry) = as) \<and>
     (\<forall>v. res = Resolved v \<longrightarrow>
        (\<not> aware \<longrightarrow> map fst (invoked me me') = cs) \<and> v = JArr (returned (invoked me me')) \<and>
        length (returned (invoked me me')) = length (invoked me me') \<and>
        memory me' event = Some (JArr as)) \<and>
     ((\<forall>entry \<in> set (invoked me me'). \<exists>v. snd (snd entry) = Returns v) \<longrightarrow>
        (\<exists>v. res = Resolved v))" for aware
  proof -
    have "\<exists>me' res new. gen_next aware False nest env event cs h (JArr as) [] True me = Some (me', res) \<and>
        run_ok aware False event cs (JArr as) [] True me me' res new"
      using assms(1,2,4) by (rule gen_next_spec) simp_all
    then obtain me' res new where
      run: "gen_next aware False nest env event cs h (JArr as) [] True me = Some (me', res)"
      and ok: "run_ok aware False event cs (JArr as) [] True me me' res new" by blast
    have np: "(\<forall>v. res \<noteq> Plain v) \<and> (\<forall>n. res \<noteq> Foreign n)"
      using assms(5) _ run by (rule gen_next_guarded) simp
    have inv: "invoked me me' = new" using ok by (rule run_ok_invoked) simp
    from ok have s: "settled True new res" and sub: "subseq (map fst new) cs"
      and pre: "\<not> aware \<longrightarrow> map fst new = take (length new) cs"
      and full: "\<not> aware \<longrightarrow> (\<exists>v. res = Resolved v) \<longrightarrow> map fst new = cs"
      and ar: "\<forall>entry \<in> set new. apply_args (JArr as) = Some (fst (snd entry))"
      and rs: "\<forall>v. res = Resolved v \<longrightarrow> v = JArr ([] @ returned new)"
      and te: "res = Raised TypeError \<or> res = Rejected TypeError \<longrightarrow> apply_args (JArr as) = None"
      and mm: "\<forall>v. res = Resolved v \<longrightarrow> (handlers me event \<noteq> None \<longrightarrow>
            memory me' event = Some (if False then v else JArr as))"
      unfolding run_ok_def by blast+
    from ar have ar': "\<forall>entry \<in> set new. fst (snd entry) = as" by auto
    from te have nt: "res \<noteq> Raised TypeError \<and> res \<noteq> Rejected TypeError" by auto
    have ret: "(\<forall>entry \<in> set new. \<exists>v. snd (snd entry) = Returns v) \<longrightarrow> (\<exists>v. res = Resolved v)"
      using settled_returns[OF s] nt np by blast
    have res: "\<forall>v. res = Resolved v \<longrightarrow>
        (\<not> aware \<longrightarrow> map fst new = cs) \<and> v = JArr (returned new) \<and>
        length (returned new) = length new \<and> memory me' event = Some (JArr as)"
      using full rs mm assms(3) settled_resolved s by auto
    show ?thesis
      apply (rule exI[of _ me'], rule exI[of _ res])
      unfolding inv using run sub pre ar' res ret by blast
  qed
  have 1: "\<exists>me' res. sequence nest env event cs h (JArr as) me = Some (me', res) \<and>
     map fst (invoked me me') = take (length (invoked me me')) cs \<and>
     (\<forall>entry \<in> set (invoked me me'). fst (snd entry) = as) \<and>
     (\<forall>v. res = Resolved v \<longrightarrow>
        map fst (invoked me me') = cs \<and> v = JArr (returned (invoked me me')) \<and>
        length (returned (invoked me me')) = length cs \<and> memory me' event = Some (JArr as)) \<and>
     ((\<forall>entry \<in> set (invoked me me'). \<exists>v. snd (snd entry) = Returns v) \<longrightarrow>
        (\<exists>v. res = Resolved v))"
  proof -
    from common[of False] obtain me' res where
      run: "gen_next False False nest env event cs h (JArr as) [] True me = Some (me', res)"
      and pre: "map fst (invoked me me') = take (length (invoked me me')) cs"
      and ar: "\<forall>entry \<in> set (invoked me me'). fst (snd entry) = as"
      and res: "\<forall>v. res = Resolved v \<longrightarrow>
        map fst (invoked me me') = cs \<and> v = JArr (returned (invoked me me')) \<and>
        length (returned (invoked me me')) = length (invoked me me') \<and>
        memory me' event = Some (JArr as)"
      and ret: "(\<forall>entry \<in> set (invoked me me'). \<exists>v. snd (snd entry) = Returns v) \<longrightarrow>
        (\<exists>v. res = Resolved v)"
      by blast
    have "length (returned (invoked me me')) = length cs" if "res = Resolved v" for v
    proof -
      from res that have "map fst (invoked me me') = cs"
        "length (returned (invoked me me')) = length (invoked me me')" by auto
      then show ?thesis using length_map[of fst "invoked me me'"] by simp
    qed
    with res have res': "\<forall>v. res = Resolved v \<longrightarrow>
        map fst (invoked me me') = cs \<and> v = JArr (returned (invoked me me')) \<and>
        length (returned (invoked me me')) = length cs \<and> memory me' event = Some (JArr as)"
      by blast
    have "sequence nest env event cs h (JArr as) me = Some (me', res)"
      using run by (simp add: sequence_def sequence_next_gen)
    with pre ar res' ret show ?thesis by blast
  qed
  have 2: "\<exists>me' res. hub_sequence nest env event cs h (JArr as) me = Some (me', res) \<and>
     subseq (map fst (invoked me me')) cs \<and>
     (\<forall>entry \<in> set (invoked me me'). fst (snd entry) = as) \<and>
     (\<forall>v. res = Resolved v \<longrightarrow>
        v = JArr (returned (invoked me me')) \<and>
        length (returned (invoked me me')) = length (invoked me me') \<and>
        memory me' event = Some (JArr as)) \<and>
     ((\<forall>entry \<in> set (invoked me me'). \<exists>v. snd (snd entry) = Returns v) \<longrightarrow>
        (\<exists>v. res = Resolved v))"
    using common[of True] unfolding hub_sequence_def hub_sequence_next_gen by blast
  from 1 2 show ?thesis by (rule conjI)
qed


text \<open>
  C4, at an event under a name that a plain object inherits. A handler is subscribed to
  \<open>toString\<close>: the registry finds the built-in function under that name and \<open>on\<close> hangs
  the handler on it, without a counter. \<open>emit\<close> makes the counter \<open>NaN\<close> and calls
  \<open>sequence\<close> with it. The guard of \<open>next\<close>, \<open>(candidate[HANDLED] = handled) === handled\<close>,
  is then false: the candidate is stamped, but no callback is invoked, nothing is
  stored as the chain's memory, and \<open>emit\<close> returns \<open>false\<close> where a future of the
  results is documented. On an event under any other name the same handler is invoked
  and the dispatch resolves with its result.
\<close>

theorem sequence_refuses_candidates:
  "members (link_handler ''toString'' (Some 0) 0 (EventEmitter ()) :: unit emitter) ''toString'' = [0] \<and>
   (\<exists>me'. emit (quiet emitter_runners) ''toString'' [JNum 7]
            (link_handler ''toString'' (Some 0) 0 (EventEmitter ()))
          = Some (me', Plain (JBool False)) \<and>
      calls me' = [] \<and> peek ''toString'' me' = JUndefined \<and>
      h_handled (heap me' ! 0) = Some NaN \<and> epoch me' ''toString'' = Some NaN) \<and>
   (\<exists>me'. emit (quiet emitter_runners) ''evt'' [JNum 7]
            (link_handler ''evt'' (Some 0) 0 (EventEmitter ()))
          = Some (me', Resolved (JArr [JUndefined])) \<and>
      calls me' = [(0, [JNum 7], Returns JUndefined)] \<and> peek ''evt'' me' = JArr [JNum 7])"
  by (simp add: example_defs members_def peek_def epoch_def)

text \<open>
  A failing invocation in general. In an \<open>emit\<close>, \<open>reemit\<close> or \<open>republish\<close> on a
  well-linked emitter, by callbacks that make no dispatch of their own, an invocation that
  throws or whose future rejects is the last invocation of the dispatch (no candidate is
  invoked after it, and none twice), and the dispatch ends with that same failure: its
  future rejects with it, unless the callback threw in the very first invocation of the
  dispatch, which makes the dispatch call itself throw it.
\<close>

lemma failure_aborts:
  assumes "well_linked me" and "no_dispatch env"
  shows
   "(\<exists>me' res. emit env event args me = Some (me', res) \<and>
      (\<forall>pre r a out post. invoked me me' = pre @ (r, a, out) # post \<longrightarrow>
         (\<forall>e. out = Throws e \<longrightarrow>
            post = [] \<and>
            res = (if pre = [] then Raised (HandlerFailure e) else Rejected (HandlerFailure e))) \<and>
         (\<forall>e. out = Rejects e \<longrightarrow> post = [] \<and> res = Rejected (HandlerFailure e)))) \<and>
    (\<exists>me' res. reemit env event senile cx f me = Some (me', res) \<and>
      (\<forall>pre r a out post. invoked me me' = pre @ (r, a, out) # post \<longrightarrow>
         (\<forall>e. out = Throws e \<longrightarrow>
            post = [] \<and>
            res = (if pre = [] then Raised (HandlerFailure e) else Rejected (HandlerFailure e))) \<and>
         (\<forall>e. out = Rejects e \<longrightarrow> post = [] \<and> res = Rejected (HandlerFailure e)))) \<and>
    (\<exists>me' res. republish env event cx f senile me = Some (me', res) \<and>
      (\<forall>pre r a out post. invoked me me' = pre @ (r, a, out) # post \<longrightarrow>
         (\<forall>e. out = Throws e \<longrightarrow>
            post = [] \<and>
            res = (if pre = [] then Raised (HandlerFailure e) else Rejected (HandlerFailure e))) \<and>
         (\<forall>e. out = Rejects e \<longrightarrow> post = [] \<and> res = Rejected (HandlerFailure e))))"
proof (intro conjI)
  from emit_log[OF assms, of "nested (stack env) env" event args] obtain me' res where
    e: "emit env event args me = Some (me', res)"
    and l: "invoked me me' = [] \<or> settled True (invoked me me') res" unfolding emit_def by blast
  have p: "(\<forall>pre r a out post. invoked me me' = pre @ (r, a, out) # post \<longrightarrow>
         (\<forall>e. out = Throws e \<longrightarrow>
            post = [] \<and>
            res = (if pre = [] then Raised (HandlerFailure e) else Rejected (HandlerFailure e))) \<and>
         (\<forall>e. out = Rejects e \<longrightarrow> post = [] \<and> res = Rejected (HandlerFailure e)))"
    using l by (rule log_failure)
  show "\<exists>me' res. emit env event args me = Some (me', res) \<and>
      (\<forall>pre r a out post. invoked me me' = pre @ (r, a, out) # post \<longrightarrow>
         (\<forall>e. out = Throws e \<longrightarrow>
            post = [] \<and>
            res = (if pre = [] then Raised (HandlerFailure e) else Rejected (HandlerFailure e))) \<and>
         (\<forall>e. out = Rejects e \<longrightarrow> post = [] \<and> res = Rejected (HandlerFailure e)))"
  proof (intro exI conjI)
    show "emit env event args me = Some (me', res)" by (rule e)
    show "(\<forall>pre r a out post. invoked me me' = pre @ (r, a, out) # post \<longrightarrow>
         (\<forall>e. out = Throws e \<longrightarrow>
            post = [] \<and>
            res = (if pre = [] then Raised (HandlerFailure e) else Rejected (HandlerFailure e))) \<and>
         (\<forall>e. out = Rejects e \<longrightarrow> post = [] \<and> res = Rejected (HandlerFailure e)))" by (rule p)
  qed
next
  from replay_log[OF assms, of "nested (stack env) env" RE_RUNNER_exec event senile cx f] obtain me' res where
    e: "reemit env event senile cx f me = Some (me', res)"
    and l: "invoked me me' = [] \<or> settled True (invoked me me') res" unfolding reemit_def by blast
  have p: "(\<forall>pre r a out post. invoked me me' = pre @ (r, a, out) # post \<longrightarrow>
         (\<forall>e. out = Throws e \<longrightarrow>
            post = [] \<and>
            res = (if pre = [] then Raised (HandlerFailure e) else Rejected (HandlerFailure e))) \<and>
         (\<forall>e. out = Rejects e \<longrightarrow> post = [] \<and> res = Rejected (HandlerFailure e)))"
    using l by (rule log_failure)
  show "\<exists>me' res. reemit env event senile cx f me = Some (me', res) \<and>
      (\<forall>pre r a out post. invoked me me' = pre @ (r, a, out) # post \<longrightarrow>
         (\<forall>e. out = Throws e \<longrightarrow>
            post = [] \<and>
            res = (if pre = [] then Raised (HandlerFailure e) else Rejected (HandlerFailure e))) \<and>
         (\<forall>e. out = Rejects e \<longrightarrow> post = [] \<and> res = Rejected (HandlerFailure e)))"
  proof (intro exI conjI)
    show "reemit env event senile cx f me = Some (me', res)" by (rule e)
    show "(\<forall>pre r a out post. invoked me me' = pre @ (r, a, out) # post \<longrightarrow>
         (\<forall>e. out = Throws e \<longrightarrow>
            post = [] \<and>
            res = (if pre = [] then Raised (HandlerFailure e) else Rejected (HandlerFailure e))) \<and>
         (\<forall>e. out = Rejects e \<longrightarrow> post = [] \<and> res = Rejected (HandlerFailure e)))" by (rule p)
  qed
next
  from replay_log[OF assms, of "nested (stack env) env" "re_runner env" event senile cx f] obtain me' res where
    e: "republish env event cx f senile me = Some (me', res)"
    and l: "invoked me me' = [] \<or> settled True (invoked me me') res" unfolding republish_def by blast
  have p: "(\<forall>pre r a out post. invoked me me' = pre @ (r, a, out) # post \<longrightarrow>
         (\<forall>e. out = Throws e \<longrightarrow>
            post = [] \<and>
            res = (if pre = [] then Raised (HandlerFailure e) else Rejected (HandlerFailure e))) \<and>
         (\<forall>e. out = Rejects e \<longrightarrow> post = [] \<and> res = Rejected (HandlerFailure e)))"
    using l by (rule log_failure)
  show "\<exists>me' res. republish env event cx f senile me = Some (me', res) \<and>
      (\<forall>pre r a out post. invoked me me' = pre @ (r, a, out) # post \<longrightarrow>
         (\<forall>e. out = Throws e \<longrightarrow>
            post = [] \<and>
            res = (if pre = [] then Raised (HandlerFailure e) else Rejected (HandlerFailure e))) \<and>
         (\<forall>e. out = Rejects e \<longrightarrow> post = [] \<and> res = Rejected (HandlerFailure e)))"
  proof (intro exI conjI)
    show "republish env event cx f senile me = Some (me', res)" by (rule e)
    show "(\<forall>pre r a out post. invoked me me' = pre @ (r, a, out) # post \<longrightarrow>
         (\<forall>e. out = Throws e \<longrightarrow>
            post = [] \<and>
            res = (if pre = [] then Raised (HandlerFailure e) else Rejected (HandlerFailure e))) \<and>
         (\<forall>e. out = Rejects e \<longrightarrow> post = [] \<and> res = Rejected (HandlerFailure e)))" by (rule p)
  qed
qed

text \<open>
  C6, at a dispatch whose first candidate throws. \<open>emit\<close> then returns no future that
  rejects: the exception leaves \<open>emit\<close> itself, because the runner makes the first call to
  \<open>next\<close> directly and nothing catches what the callback throws there. A callback that
  throws in any later invocation is called from a continuation of \<open>when\<close>, and the future
  of the dispatch rejects with what it threw, as it does here when the second of two
  candidates throws.
\<close>

theorem first_handler_throws:
  "(\<exists>me' res. emit (scripted emitter_runners (\<lambda>f. ([], Throws (JStr ''boom''))) (\<lambda>c. ''started''))
       ''evt'' [] (link_handler ''evt'' (Some 0) 0 (EventEmitter ())) = Some (me', res) \<and>
     calls me' = [(0, [], Throws (JStr ''boom''))] \<and>
     res = Raised (HandlerFailure (JStr ''boom'')) \<and>
     res \<noteq> Rejected (HandlerFailure (JStr ''boom''))) \<and>
   (\<exists>me'. emit (scripted emitter_runners
              (\<lambda>f. if f = 1 then ([], Throws (JStr ''boom'')) else ([], Returns JUndefined))
              (\<lambda>c. ''started'')) ''evt'' [] ab
          = Some (me', Rejected (HandlerFailure (JStr ''boom''))) \<and>
      calls me' = [(0, [], Returns JUndefined), (1, [], Throws (JStr ''boom''))])"
  by (simp add: ab_def example_defs)

text \<open>
  C2 (as amended). The phases the hub's runners defer are \<open>initialize\<close>, \<open>initialized\<close>,
  \<open>finalize\<close> and \<open>finalized\<close>: these four strings and no others match \<open>RE_PHASE\<close>. When
  \<open>next\<close> of the hub's \<open>sequence\<close> or \<open>pipeline\<close> reaches a candidate that has a truthy context
  reporting such a phase, it goes on exactly as if the candidate were not in the snapshot:
  same emitter, same arguments, same results. Over a whole run on a well-linked emitter,
  when the phases do not change during the run and no callback makes a dispatch of its
  own (which would stamp and log on its own account), the run over the snapshot is the run over
  the snapshot without its deferred candidates: it returns, the invoked handlers are
  among the candidates that are not deferred, in their order, the results of the hub's
  \<open>sequence\<close> are the values the invoked handlers returned, and a deferred candidate is not
  in the log and keeps its stamp, so that whether a later \<open>reemit\<close> replays it is what it
  was before the run.
\<close>

theorem phase_deferral:
  assumes "well_linked me" and "\<forall>c \<in> set cs. c < length (heap me)"
    and "\<forall>w w' x. phase env w x = phase env w' x"
    and "r = HubSequence \<or> r = HubPipeline" and "no_dispatch env"
  shows
   "(RE_PHASE_test s \<longleftrightarrow> s \<in> {''initialize'', ''initialized'', ''finalize'', ''finalized''}) \<and>
    (\<forall>st c cs' results d. blocked env st c \<longrightarrow>
       hub_sequence_next nest env event (c # cs') h args results d st =
         hub_sequence_next nest env event cs' h args results d st \<and>
       pipeline_next nest env event (c # cs') h args d st = pipeline_next nest env event cs' h args d st) \<and>
    (\<exists>me' res. run nest r env event cs h args me = Some (me', res) \<and>
       run nest r env event (filter (\<lambda>c. \<not> blocked env me c) cs) h args me = Some (me', res) \<and>
       subseq (map fst (invoked me me')) (filter (\<lambda>c. \<not> blocked env me c) cs) \<and>
       (r = HubSequence \<longrightarrow> (\<forall>v. res = Resolved v \<longrightarrow> v = JArr (returned (invoked me me')))) \<and>
       (\<forall>c \<in> set cs. blocked env me c \<longrightarrow>
          c \<notin> set (map fst (invoked me me')) \<and>
          h_handled (heap me' ! c) = h_handled (heap me ! c) \<and>
          (\<forall>n senile cx f. replays n senile cx f (heap me' ! c) = replays n senile cx f (heap me ! c))))"
proof (intro conjI)
  show "RE_PHASE_test s \<longleftrightarrow> s \<in> {''initialize'', ''initialized'', ''finalize'', ''finalized''}"
    by (rule RE_PHASE_test_iff)
  show "\<forall>st c cs' results d. blocked env st c \<longrightarrow>
       hub_sequence_next nest env event (c # cs') h args results d st =
         hub_sequence_next nest env event cs' h args results d st \<and>
       pipeline_next nest env event (c # cs') h args d st = pipeline_next nest env event cs' h args d st"
    using skip_blocked by blast
  let ?cs = "filter (\<lambda>c. \<not> blocked env me c) cs"
  have aware: "is_aware r" using assms(4) by (auto simp: is_aware_def)
  have valid: "\<forall>c \<in> set ?cs. c < length (heap me)" using assms(2) by simp
  have ni: "\<forall>name. r \<noteq> Inherited name" using assms(4) by auto
  have all: "run nest r env event cs h args me = gen_next False (is_piped r) nest env event ?cs h args [] True me"
    unfolding run_gen[OF ni] using aware gen_next_filter[OF assms(1,2,3,5)] by simp
  have "filter (\<lambda>c. \<not> blocked env me c) ?cs = ?cs" by simp
  then have some: "run nest r env event ?cs h args me = gen_next False (is_piped r) nest env event ?cs h args [] True me"
    unfolding run_gen[OF ni]
    using aware gen_next_filter[OF assms(1) valid assms(3,5), of "is_piped r" nest event h args "[]" True]
    by simp
  have "\<exists>me' res new. gen_next False (is_piped r) nest env event ?cs h args [] True me = Some (me', res) \<and>
      run_ok False (is_piped r) event ?cs args [] True me me' res new"
    using assms(1) valid assms(5) by (rule gen_next_spec) simp_all
  then obtain me' res new where
    run: "gen_next False (is_piped r) nest env event ?cs h args [] True me = Some (me', res)"
    and ok: "run_ok False (is_piped r) event ?cs args [] True me me' res new" by blast
  have inv: "invoked me me' = new" using ok by (rule run_ok_invoked) simp
  from ok have sub: "subseq (map fst new) ?cs" and g: "grows me me'"
    and rs: "\<not> is_piped r \<longrightarrow> (\<forall>v. res = Resolved v \<longrightarrow> v = JArr ([] @ returned new))"
    and st: "\<forall>x < length (heap me). x \<notin> set ?cs \<longrightarrow> h_handled (heap me' ! x) = h_handled (heap me ! x)"
    unfolding run_ok_def by blast+
  have res: "r = HubSequence \<longrightarrow> (\<forall>v. res = Resolved v \<longrightarrow> v = JArr (returned new))"
    using rs by (auto simp: is_piped_def)
  have skipped: "\<forall>c \<in> set cs. blocked env me c \<longrightarrow>
          c \<notin> set (map fst new) \<and>
          h_handled (heap me' ! c) = h_handled (heap me ! c) \<and>
          (\<forall>n senile cx f. replays n senile cx f (heap me' ! c) = replays n senile cx f (heap me ! c))"
  proof (intro ballI impI)
    fix c assume c: "c \<in> set cs" "blocked env me c"
    then have notin: "c \<notin> set ?cs" by simp
    with subseq_subset[OF sub] have 1: "c \<notin> set (map fst new)" by blast
    from c assms(2) have lt: "c < length (heap me)" by simp
    with st notin have 2: "h_handled (heap me' ! c) = h_handled (heap me ! c)" by simp
    from g lt have "h_callback (heap me' ! c) = h_callback (heap me ! c)"
      "h_context (heap me' ! c) = h_context (heap me ! c)" by (simp_all add: grows_def)
    with 2 have 3: "\<forall>n senile cx f. replays n senile cx f (heap me' ! c) = replays n senile cx f (heap me ! c)"
      using replays_fields by blast
    from 1 2 3 show "c \<notin> set (map fst new) \<and>
          h_handled (heap me' ! c) = h_handled (heap me ! c) \<and>
          (\<forall>n senile cx f. replays n senile cx f (heap me' ! c) = replays n senile cx f (heap me ! c))"
      by blast
  qed
  show "\<exists>me' res. run nest r env event cs h args me = Some (me', res) \<and>
       run nest r env event ?cs h args me = Some (me', res) \<and>
       subseq (map fst (invoked me me')) ?cs \<and>
       (r = HubSequence \<longrightarrow> (\<forall>v. res = Resolved v \<longrightarrow> v = JArr (returned (invoked me me')))) \<and>
       (\<forall>c \<in> set cs. blocked env me c \<longrightarrow>
          c \<notin> set (map fst (invoked me me')) \<and>
          h_handled (heap me' ! c) = h_handled (heap me ! c) \<and>
          (\<forall>n senile cx f. replays n senile cx f (heap me' ! c) = replays n senile cx f (heap me ! c)))"
  proof (intro exI conjI)
    show "run nest r env event cs h args me = Some (me', res)" using all run by simp
    show "run nest r env event ?cs h args me = Some (me', res)" using some run by simp
    show "subseq (map fst (invoked me me')) ?cs" unfolding inv by (rule sub)
    show "r = HubSequence \<longrightarrow> (\<forall>v. res = Resolved v \<longrightarrow> v = JArr (returned (invoked me me')))"
      unfolding inv by (rule res)
    show "\<forall>c \<in> set cs. blocked env me c \<longrightarrow>
          c \<notin> set (map fst (invoked me me')) \<and>
          h_handled (heap me' ! c) = h_handled (heap me ! c) \<and>
          (\<forall>n senile cx f. replays n senile cx f (heap me' ! c) = replays n senile cx f (heap me ! c))"
      unfolding inv by (rule skipped)
  qed
qed

theorem phase_deferral_witness:
  "well_linked ab \<and> members ab ''evt'' = [0, 1] \<and>
   no_dispatch (scripted hub_runners (\<lambda>f. ([], Returns (JNum (int f))))
              (\<lambda>c. if c = 0 then ''initialize'' else ''started'')) \<and>
   blocked (scripted hub_runners (\<lambda>f. ([], Returns (JNum (int f))))
              (\<lambda>c. if c = 0 then ''initialize'' else ''started'')) ab 0 \<and>
   (\<exists>me' res. run (nested 0 (scripted hub_runners (\<lambda>f. ([], Returns (JNum (int f))))
              (\<lambda>c. if c = 0 then ''initialize'' else ''started''))) HubPipeline (scripted hub_runners (\<lambda>f. ([], Returns (JNum (int f))))
              (\<lambda>c. if c = 0 then ''initialize'' else ''started'')) ''evt'' [0, 1] (Some (Num 1)) (JArr []) ab
          = Some (me', res) \<and>
      invoked ab me' = [(1, [], Returns (JNum 1))] \<and>
      h_handled (heap me' ! 0) = None \<and> h_handled (heap me' ! 1) = Some (Num 1))"
proof -
  let ?env = "scripted hub_runners (\<lambda>f. ([], Returns (JNum (int f))))
              (\<lambda>c. if c = 0 then ''initialize'' else ''started'')"
  have valid: "\<forall>c \<in> set [0, 1]. c < length (heap ab)" by (simp add: ab_def example_defs)
  have static: "\<forall>w w' x. phase ?env w x = phase ?env w' x" by (simp add: scripted_def)
  have b: "blocked ?env ab 0" by (simp add: ab_def example_defs)
  have s0: "h_handled (heap ab ! 0) = None" by (simp add: ab_def example_defs)
  have c0: "calls ab = []" by (simp add: ab_def example_defs)
  have nd: "no_dispatch ?env" by (simp add: no_dispatch_def scripted_def)
  have run: "\<exists>me'. run (nested 0 ?env) HubPipeline ?env ''evt'' [0, 1] (Some (Num 1)) (JArr []) ab =
        Some (me', Resolved (JNum 1)) \<and>
      calls me' = [(1, [], Returns (JNum 1))] \<and> h_handled (heap me' ! 1) = Some (Num 1)"
    by (simp add: ab_def example_defs)
  from phase_deferral[OF ab_wf valid static _ nd, of HubPipeline "''initialize''" "nested 0 ?env"
      "''evt''" "Some (Num 1)" "JArr []"]
  obtain me' res where
    r: "run (nested 0 ?env) HubPipeline ?env ''evt'' [0, 1] (Some (Num 1)) (JArr []) ab = Some (me', res)"
    and k: "\<forall>c \<in> set [0, 1]. blocked ?env ab c \<longrightarrow> h_handled (heap me' ! c) = h_handled (heap ab ! c)"
    by auto
  from k b s0 have "h_handled (heap me' ! 0) = None" by simp
  with r run c0 b ab_wf ab_members nd show ?thesis by (auto simp: invoked_def)
qed

text \<open>
  C2 as stated fails: \<open>initializing\<close> and \<open>finalizing\<close> do not match \<open>RE_PHASE\<close>. A handler
  whose context reports the phase \<open>initializing\<close> is invoked by \<open>publish\<close> and stamped with
  the dispatch's counter.
\<close>

theorem initializing_not_deferred:
  "\<not> RE_PHASE_test ''initializing'' \<and> \<not> RE_PHASE_test ''finalizing'' \<and>
   (\<exists>me'. emit (scripted hub_runners (\<lambda>f. ([], Returns JUndefined)) (\<lambda>c. ''initializing''))
            ''evt'' [] (link_handler ''evt'' (Some 0) 0 (EventEmitter ()))
          = Some (me', Resolved (JArr [])) \<and>
      calls me' = [(0, [], Returns JUndefined)] \<and> h_handled (heap me' ! 0) = Some (Num 1))"
  by (simp add: example_defs)



end
